theory Spec2Isabelle
  imports Complex_Main "HOL-Library.List_Lexorder" "HOL-Library.Char_ord"
    "HOL-Library.Product_Lexorder"
begin

section \<open>Values, errors and generators\<close>

text \<open>
  The embedding follows \<^verbatim>\<open>colab_evaluation.py\<close>. Python floats are read as
  \<^typ>\<open>real\<close> (no NaN, no rounding); identifiers and labels are strings; a numpy
  matrix is the list of its rows. Every \<^verbatim>\<open>raise\<close> of Python, numpy or pandas
  that the modelled code can reach is a value of \<open>error\<close>.
\<close>

datatype error = ValueError | IndexError | TypeError

text \<open>
  A generator run to exhaustion: the values it yielded, in order, and how it ended
  (\<open>None\<close>: it returned; \<open>Some e\<close>: it raised \<open>e\<close> after the last yield).
\<close>

type_synonym 'a generated = "'a list \<times> error option"

definition yield :: "'a \<Rightarrow> 'a generated \<Rightarrow> 'a generated" where
  "yield x g = (x # fst g, snd g)"

type_synonym vector = "real list"
type_synonym matrix = "real list list"
type_synonym inference = "string \<times> vector"
type_synonym batch = "string list \<times> matrix"

section \<open>Batch Reader\<close>

text \<open>
  \<^verbatim>\<open>np.vstack\<close> of a list of one-dimensional arrays: the matrix that has them as
  rows. It raises \<^verbatim>\<open>ValueError\<close> on the empty list and when two arrays differ
  in length.
\<close>

definition vstack :: "vector list \<Rightarrow> error + matrix" where
  "vstack predictions =
     (if predictions = [] then Inl ValueError
      else if list_all (\<lambda>v. length v = length (hd predictions)) predictions
        then Inr predictions
      else Inl ValueError)"

text \<open>
  The \<^verbatim>\<open>while True\<close> loop of \<^verbatim>\<open>batch_inferences\<close>, run on the records the
  iterator still holds, with the loop's three variables. The first equation is the
  \<^verbatim>\<open>except StopIteration\<close> branch.
\<close>

fun batch_loop ::
  "int \<Rightarrow> inference list \<Rightarrow> int \<Rightarrow> vector list \<Rightarrow> string list \<Rightarrow> batch generated"
where
  "batch_loop batch_size [] counter predictions seq_ids =
     (if length seq_ids > 0 then
        (case vstack predictions of
           Inl e \<Rightarrow> ([], Some e)
         | Inr m \<Rightarrow> ([(seq_ids, m)], None))
      else ([], None))"
| "batch_loop batch_size (inference # iterator) counter predictions seq_ids =
     (let seq_ids' = seq_ids @ [fst inference];
          predictions' = predictions @ [snd inference];
          counter' = counter + 1
      in if counter' = batch_size then
           (case vstack predictions' of
              Inl e \<Rightarrow> ([], Some e)
            | Inr m \<Rightarrow> yield (seq_ids', m) (batch_loop batch_size iterator 0 [] []))
         else batch_loop batch_size iterator counter' predictions' seq_ids')"

definition batch_inferences :: "inference list \<Rightarrow> int \<Rightarrow> batch generated" where
  "batch_inferences iterator batch_size = batch_loop batch_size iterator 0 [] []"

text \<open>
  \<^verbatim>\<open>batched_inferences_from_files\<close>: a fresh \<^verbatim>\<open>batch_inferences\<close> generator
  per file, drained before the next file is opened. \<^verbatim>\<open>inference.parse_shard\<close> is
  not part of the file; it is the parameter \<open>parse_shard\<close>, giving the records of a
  shard in order. An exception of the inner generator other than
  \<^verbatim>\<open>StopIteration\<close> leaves the outer one.
\<close>

fun batched_inferences_from_files ::
  "('f \<Rightarrow> inference list) \<Rightarrow> 'f list \<Rightarrow> int \<Rightarrow> batch generated"
where
  "batched_inferences_from_files parse_shard [] batch_size = ([], None)"
| "batched_inferences_from_files parse_shard (file_name # shard_names) batch_size =
     (case batch_inferences (parse_shard file_name) batch_size of
        (batches, Some e) \<Rightarrow> (batches, Some e)
      | (batches, None) \<Rightarrow>
          (let rest = batched_inferences_from_files parse_shard shard_names batch_size
           in (batches @ fst rest, snd rest)))"

text \<open>The sizes the batches of \<open>R\<close> records have at batch size \<open>B\<close>.\<close>

definition batch_sizes :: "nat \<Rightarrow> nat \<Rightarrow> nat list" where
  "batch_sizes B R = replicate (R div B) B @ (if R mod B = 0 then [] else [R mod B])"

text \<open>Cutting a list into consecutive pieces of \<open>n\<close> elements; the last may be shorter.\<close>

function chunks :: "nat \<Rightarrow> 'a list \<Rightarrow> 'a list list" where
  "chunks n xs = (if n = 0 \<or> xs = [] then [] else take n xs # chunks n (drop n xs))"
  by pat_completeness auto
termination
  by (relation "measure (\<lambda>(n, xs). length xs)") auto

definition unzip :: "inference list \<Rightarrow> batch" where
  "unzip rs = (map fst rs, map snd rs)"

section \<open>Sparsifier\<close>

text \<open>A tidy prediction row: \<^verbatim>\<open>up_id\<close>, \<^verbatim>\<open>label\<close>, \<^verbatim>\<open>value\<close>.\<close>

type_synonym prediction = "string \<times> string \<times> real"

text \<open>
  \<^verbatim>\<open>np.argwhere(preds > min_decision_threshold)\<close>: the positions whose entry is
  strictly above the threshold, in ascending order.
\<close>

definition argwhere_gt :: "vector \<Rightarrow> real \<Rightarrow> nat list" where
  "argwhere_gt preds min_decision_threshold =
     filter (\<lambda>j. preds ! j > min_decision_threshold) [0..<length preds]"

text \<open>
  The inner \<^verbatim>\<open>for vocab_index in ...\<close> loop; \<^verbatim>\<open>vocab[vocab_index]\<close> raises
  \<^verbatim>\<open>IndexError\<close> past the end of the vocabulary.
\<close>

fun tidy_row_loop ::
  "string \<Rightarrow> vector \<Rightarrow> string list \<Rightarrow> nat list \<Rightarrow> error + prediction list"
where
  "tidy_row_loop up_id preds vocab [] = Inr []"
| "tidy_row_loop up_id preds vocab (vocab_index # rest) =
     (if vocab_index < length vocab then
        (case tidy_row_loop up_id preds vocab rest of
           Inl e \<Rightarrow> Inl e
         | Inr rows \<Rightarrow> Inr ((up_id, vocab ! vocab_index, preds ! vocab_index) # rows))
      else Inl IndexError)"

text \<open>
  The outer \<^verbatim>\<open>for i in range(len(sequence_names))\<close> loop;
  \<^verbatim>\<open>predictions_array[i, :]\<close> raises \<^verbatim>\<open>IndexError\<close> past the last matrix row.
\<close>

fun tidy_loop ::
  "string list \<Rightarrow> matrix \<Rightarrow> string list \<Rightarrow> real \<Rightarrow> nat list \<Rightarrow> error + prediction list"
where
  "tidy_loop sequence_names predictions_array vocab min_decision_threshold [] = Inr []"
| "tidy_loop sequence_names predictions_array vocab min_decision_threshold (i # is) =
     (if i < length predictions_array then
        (let up_id = sequence_names ! i;
             preds = predictions_array ! i
         in case tidy_row_loop up_id preds vocab (argwhere_gt preds min_decision_threshold) of
              Inl e \<Rightarrow> Inl e
            | Inr rows \<Rightarrow>
                (case tidy_loop sequence_names predictions_array vocab
                        min_decision_threshold is of
                   Inl e \<Rightarrow> Inl e
                 | Inr rest \<Rightarrow> Inr (rows @ rest)))
      else Inl IndexError)"

definition make_tidy_df_from_seq_names_and_prediction_array ::
  "string list \<Rightarrow> matrix \<Rightarrow> string list \<Rightarrow> real \<Rightarrow> error + prediction list"
where
  "make_tidy_df_from_seq_names_and_prediction_array sequence_names predictions_array vocab
       min_decision_threshold =
     tidy_loop sequence_names predictions_array vocab min_decision_threshold
       [0..<length sequence_names]"

section \<open>Aligner\<close>

text \<open>
  A tidy ground-truth row (\<^verbatim>\<open>up_id\<close>, \<^verbatim>\<open>label\<close>, \<^verbatim>\<open>gt\<close>), and a row of the outer
  join before filling: a column the row's source lacks holds NaN, here \<open>None\<close>.
\<close>

type_synonym truth = "string \<times> string \<times> bool"
type_synonym joined = "string \<times> string \<times> real option \<times> bool option"

text \<open>
  \<^verbatim>\<open>DataFrame.merge(how="outer")\<close> on the key columns \<^verbatim>\<open>["label", "up_id"]\<close> is
  pandas code; it is modelled as the full outer join pandas documents: every pair of a
  left and a right row with equal keys, every left row without partner, every right row
  without partner, the rows ordered by key. A row is a tuple; its key is (label, up_id).
\<close>

definition pred_key :: "prediction \<Rightarrow> string \<times> string" where
  "pred_key p = (fst (snd p), fst p)"

definition truth_key :: "truth \<Rightarrow> string \<times> string" where
  "truth_key t = (fst (snd t), fst t)"

definition joined_key :: "joined \<Rightarrow> string \<times> string" where
  "joined_key j = (fst (snd j), fst j)"

text \<open>The rows of the join that come from one left row: one per partner, or one without.\<close>

definition left_join_rows :: "truth list \<Rightarrow> prediction \<Rightarrow> joined list" where
  "left_join_rows ground_truth_df p =
     (case filter (\<lambda>t. truth_key t = pred_key p) ground_truth_df of
        [] \<Rightarrow> [(fst p, fst (snd p), Some (snd (snd p)), None)]
      | ms \<Rightarrow> map (\<lambda>t. (fst p, fst (snd p), Some (snd (snd p)), Some (snd (snd t)))) ms)"

text \<open>The rows of the join that come from the right rows without partner.\<close>

definition right_only_rows :: "prediction list \<Rightarrow> truth list \<Rightarrow> joined list" where
  "right_only_rows predictions_df ground_truth_df =
     map (\<lambda>t. (fst t, fst (snd t), None, Some (snd (snd t))))
       (filter (\<lambda>t. truth_key t \<notin> set (map pred_key predictions_df)) ground_truth_df)"

definition merge_outer :: "prediction list \<Rightarrow> truth list \<Rightarrow> joined list" where
  "merge_outer predictions_df ground_truth_df =
     sort_key joined_key
       (concat (map (left_join_rows ground_truth_df) predictions_df)
        @ right_only_rows predictions_df ground_truth_df)"

text \<open>
  A cell of the filled table: a float or a Python bool. \<open>py_num\<close> is the number Python
  compares it as (\<^verbatim>\<open>False == 0\<close>, \<^verbatim>\<open>True == 1\<close>).
\<close>

datatype pyval = FloatV real | BoolV bool

fun py_num :: "pyval \<Rightarrow> real" where
  "py_num (FloatV x) = x"
| "py_num (BoolV b) = (if b then 1 else 0)"

definition py_eq_bool :: "pyval \<Rightarrow> bool \<Rightarrow> bool" where
  "py_eq_bool c b = (py_num c = py_num (BoolV b))"

record aligned =
  up_id :: string
  label :: string
  val :: pyval
  gt :: pyval

text \<open>
  \<^verbatim>\<open>fillna(False)\<close> on one row: every NaN cell becomes \<^verbatim>\<open>False\<close> (which a float
  column of pandas stores as 0.0; \<open>py_num\<close> reads both as 0).
\<close>

definition fillna_False :: "joined \<Rightarrow> aligned" where
  "fillna_False j =
     \<lparr>up_id = fst j, label = fst (snd j),
      val = (case fst (snd (snd j)) of None \<Rightarrow> BoolV False | Some x \<Rightarrow> FloatV x),
      gt = (case snd (snd (snd j)) of None \<Rightarrow> BoolV False | Some b \<Rightarrow> BoolV b)\<rparr>"

text \<open>
  \<^verbatim>\<open>merge_predictions_and_ground_truth\<close>: the outer join, then the fill of the
  joined table.
\<close>

definition merge_predictions_and_ground_truth ::
  "prediction list \<Rightarrow> truth list \<Rightarrow> aligned list"
where
  "merge_predictions_and_ground_truth predictions_df ground_truth_df =
     (let combined = merge_outer predictions_df ground_truth_df
      in map fillna_False combined)"

text \<open>The join key of a row of the aligned table.\<close>

definition aligned_key :: "aligned \<Rightarrow> string \<times> string" where
  "aligned_key r = (label r, up_id r)"

text \<open>
  The value a table holds at a key (tables with at most one row per key): \<open>None\<close> when
  no row has the key.
\<close>

definition pred_lookup :: "prediction list \<Rightarrow> string \<times> string \<Rightarrow> real option" where
  "pred_lookup predictions_df = map_of (map (\<lambda>p. (pred_key p, snd (snd p))) predictions_df)"

definition truth_lookup :: "truth list \<Rightarrow> string \<times> string \<Rightarrow> bool option" where
  "truth_lookup ground_truth_df = map_of (map (\<lambda>t. (truth_key t, snd (snd t))) ground_truth_df)"

section \<open>Confusion Assigner\<close>

text \<open>
  \<^verbatim>\<open>assign_tp_fp_fn\<close> adds three columns to the aligned table, each computed row by
  row: \<^verbatim>\<open>(gt == True) & (value > threshold)\<close> and its two siblings.
\<close>

record confusion = aligned +
  tp :: bool
  fp :: bool
  fn :: bool

definition assign_row :: "real \<Rightarrow> aligned \<Rightarrow> confusion" where
  "assign_row threshold r =
     \<lparr>up_id = up_id r, label = label r, val = val r, gt = gt r,
      tp = (py_eq_bool (gt r) True \<and> py_num (val r) > threshold),
      fp = (py_eq_bool (gt r) False \<and> py_num (val r) > threshold),
      fn = (py_eq_bool (gt r) True \<and> py_num (val r) < threshold)\<rparr>"

definition assign_tp_fp_fn :: "prediction list \<Rightarrow> truth list \<Rightarrow> real \<Rightarrow> confusion list" where
  "assign_tp_fp_fn predictions_df ground_truth_df threshold =
     (let combined = merge_predictions_and_ground_truth predictions_df ground_truth_df
      in map (assign_row threshold) combined)"

section \<open>Curve compaction\<close>

text \<open>
  The subtraction of two floats is rounded: \<^verbatim>\<open>precisions[i] - last_precision\<close> is
  the double nearest to the exact difference, not the exact difference (the doubles
  written 0.6 and 0.1 differ by a little less than 0.5, and their float difference is
  0.5). The compaction compares this computed difference with the resolution, so the
  float subtraction is a parameter \<open>fsub\<close> of the model, and every theorem about the
  compaction holds for whatever the machine's subtraction returns. \<^verbatim>\<open>abs\<close> and
  \<^verbatim>\<open>>=\<close> are exact on floats.
\<close>

type_synonym float_sub = "real \<Rightarrow> real \<Rightarrow> real"

text \<open>
  The exact difference. The float subtraction returns it whenever it is a double, as in
  \<open>0 - x\<close>; the worked examples below subtract only such operands.
\<close>

definition exact_sub :: float_sub where
  "exact_sub x y = x - y"

text \<open>The variables of the loop of \<^verbatim>\<open>filter_pr_curve\<close>.\<close>

record filter_state =
  last_precision :: "real option"
  last_recall :: "real option"
  new_precisions :: "real list"
  new_recalls :: "real list"
  new_thresholds :: "real list"

text \<open>
  The body of the \<^verbatim>\<open>if\<close>: the three appends and the two assignments.
  \<^verbatim>\<open>recalls[i]\<close> and \<^verbatim>\<open>thresholds[i]\<close> raise \<^verbatim>\<open>IndexError\<close> past the end.
\<close>

definition keep_point ::
  "real list \<Rightarrow> real list \<Rightarrow> real list \<Rightarrow> nat \<Rightarrow> filter_state \<Rightarrow> error + filter_state"
where
  "keep_point precisions recalls thresholds i st =
     (if i < length recalls \<and> i < length thresholds then
        Inr \<lparr>last_precision = Some (precisions ! i),
             last_recall = Some (recalls ! i),
             new_precisions = new_precisions st @ [precisions ! i],
             new_recalls = new_recalls st @ [recalls ! i],
             new_thresholds = new_thresholds st @ [thresholds ! i]\<rparr>
      else Inl IndexError)"

text \<open>
  One iteration, \<open>i < length precisions\<close>. The condition is evaluated left to right and
  short-circuits, so \<^verbatim>\<open>recalls[i]\<close> is read in the condition only when the first two
  disjuncts are false; subtracting \<^verbatim>\<open>None\<close> raises \<^verbatim>\<open>TypeError\<close>.
\<close>

definition filter_step ::
  "float_sub \<Rightarrow> real \<Rightarrow> real list \<Rightarrow> real list \<Rightarrow> real list \<Rightarrow> nat \<Rightarrow> filter_state
     \<Rightarrow> error + filter_state"
where
  "filter_step fsub resolution precisions recalls thresholds i st =
     (case last_precision st of
        None \<Rightarrow> keep_point precisions recalls thresholds i st
      | Some lp \<Rightarrow>
          if \<bar>fsub (precisions ! i) lp\<bar> \<ge> resolution then
            keep_point precisions recalls thresholds i st
          else if i < length recalls then
            (case last_recall st of
               None \<Rightarrow> Inl TypeError
             | Some lr \<Rightarrow>
                 if \<bar>fsub (recalls ! i) lr\<bar> \<ge> resolution then
                   keep_point precisions recalls thresholds i st
                 else Inr st)
          else Inl IndexError)"

fun filter_loop ::
  "float_sub \<Rightarrow> real \<Rightarrow> real list \<Rightarrow> real list \<Rightarrow> real list \<Rightarrow> nat list \<Rightarrow> filter_state
     \<Rightarrow> error + filter_state"
where
  "filter_loop fsub resolution precisions recalls thresholds [] st = Inr st"
| "filter_loop fsub resolution precisions recalls thresholds (i # is) st =
     (case filter_step fsub resolution precisions recalls thresholds i st of
        Inl e \<Rightarrow> Inl e
      | Inr st' \<Rightarrow> filter_loop fsub resolution precisions recalls thresholds is st')"

definition filter_pr_curve ::
  "float_sub \<Rightarrow> real list \<Rightarrow> real list \<Rightarrow> real list \<Rightarrow> real
     \<Rightarrow> error + (real list \<times> real list \<times> real list)"
where
  "filter_pr_curve fsub precisions recalls thresholds resolution =
     (case filter_loop fsub resolution precisions recalls thresholds [0..<length precisions]
             \<lparr>last_precision = None, last_recall = None, new_precisions = [],
              new_recalls = [], new_thresholds = []\<rparr> of
        Inl e \<Rightarrow> Inl e
      | Inr st \<Rightarrow> Inr (new_precisions st, new_recalls st, new_thresholds st))"

text \<open>
  The rule of the compaction, on positions: with \<open>ks\<close> the kept positions, position \<open>i\<close>
  is to be kept when it is the first, or when the computed difference between its
  precision, or its recall, and that of the last kept position before \<open>i\<close> is at least
  \<open>\<epsilon>\<close> in absolute value.
\<close>

definition keeps :: "float_sub \<Rightarrow> real \<Rightarrow> real list \<Rightarrow> real list \<Rightarrow> nat list \<Rightarrow> nat \<Rightarrow> bool" where
  "keeps fsub \<epsilon> ps rs ks i =
     (i = 0 \<or> \<bar>fsub (ps ! i) (ps ! Max {k \<in> set ks. k < i})\<bar> \<ge> \<epsilon>
            \<or> \<bar>fsub (rs ! i) (rs ! Max {k \<in> set ks. k < i})\<bar> \<ge> \<epsilon>)"

text \<open>
  What the loop of \<^verbatim>\<open>filter_pr_curve\<close> has established after the positions below
  \<open>m\<close>, \<open>ks\<close> being the positions kept so far.
\<close>

definition filter_inv ::
  "float_sub \<Rightarrow> real \<Rightarrow> real list \<Rightarrow> real list \<Rightarrow> real list \<Rightarrow> nat \<Rightarrow> nat list \<Rightarrow> filter_state \<Rightarrow> bool"
where
  "filter_inv fsub \<epsilon> ps rs ts m ks st =
     (sorted_wrt (<) ks \<and> set ks \<subseteq> {..<m}
      \<and> new_precisions st = map (\<lambda>k. ps ! k) ks
      \<and> new_recalls st = map (\<lambda>k. rs ! k) ks
      \<and> new_thresholds st = map (\<lambda>k. ts ! k) ks
      \<and> last_precision st = (if ks = [] then None else Some (ps ! last ks))
      \<and> last_recall st = (if ks = [] then None else Some (rs ! last ks))
      \<and> (\<forall>i<m. i \<in> set ks \<longleftrightarrow> keeps fsub \<epsilon> ps rs ks i))"

section \<open>Curve Builder\<close>

text \<open>
  A row of the output table. \<^verbatim>\<open>f1\<close> is \<^verbatim>\<open>2 * p * r / (p + r)\<close>; where
  \<open>p + r = 0\<close> numpy gives NaN or an infinity without raising, here \<open>None\<close>.
\<close>

record curve_point =
  group :: string
  precision :: real
  recall :: real
  threshold :: real
  f1 :: "real option"

definition f1_score :: "real \<Rightarrow> real \<Rightarrow> real option" where
  "f1_score p r = (if p + r = 0 then None else Some (2 * p * r / (p + r)))"

text \<open>
  \<^verbatim>\<open>pd.DataFrame({...})\<close> of one group: columns of different lengths raise
  \<^verbatim>\<open>ValueError\<close>.
\<close>

definition make_curve_df ::
  "string \<Rightarrow> real list \<Rightarrow> real list \<Rightarrow> real list \<Rightarrow> error + curve_point list"
where
  "make_curve_df group_name precisions recalls thresholds =
     (if length precisions = length recalls \<and> length recalls = length thresholds then
        Inr (map (\<lambda>(p, r, t).
               \<lparr>group = group_name, precision = p, recall = r, threshold = t,
                f1 = f1_score p r\<rparr>)
             (zip precisions (zip recalls thresholds)))
      else Inl ValueError)"

text \<open>
  The library function \<^verbatim>\<open>sklearn.metrics.precision_recall_curve\<close> is a parameter
  \<open>prc\<close> of the Curve Builder: from the ground-truth flags and the scores of a group to
  (precisions, recalls, thresholds), or an error.
\<close>

type_synonym pr_curve = "bool list \<Rightarrow> real list \<Rightarrow> error + (real list \<times> real list \<times> real list)"

text \<open>
  The body of the \<^verbatim>\<open>for group_name, group in to_process\<close> loop. The library is given
  the \<^verbatim>\<open>gt\<close> column as flags (\<^verbatim>\<open>True\<close> is the positive label) and the
  \<^verbatim>\<open>value\<close> column as numbers; \<^verbatim>\<open>[:-1]\<close> is \<open>butlast\<close>; the resolution of the
  compaction is the default \<^verbatim>\<open>1e-3\<close>.
\<close>

definition process_group ::
  "float_sub \<Rightarrow> pr_curve \<Rightarrow> bool \<Rightarrow> string \<times> aligned list \<Rightarrow> error + curve_point list"
where
  "process_group fsub prc filtered g =
     (case g of (group_name, rows) \<Rightarrow>
        (case prc (map (\<lambda>r. py_eq_bool (gt r) True) rows) (map (\<lambda>r. py_num (val r)) rows) of
           Inl e \<Rightarrow> Inl e
         | Inr (precisions, recalls, thresholds) \<Rightarrow>
             (let precisions = butlast precisions;
                  recalls = butlast recalls
              in if filtered then
                   (case filter_pr_curve fsub precisions recalls thresholds (1 / 1000) of
                      Inl e \<Rightarrow> Inl e
                    | Inr (precisions', recalls', thresholds') \<Rightarrow>
                        make_curve_df group_name precisions' recalls' thresholds')
                 else make_curve_df group_name precisions recalls thresholds)))"

text \<open>
  \<^verbatim>\<open>to_process\<close>. Without a grouping: the one group \<^verbatim>\<open>'all'\<close>. With one:
  \<^verbatim>\<open>combined['label'].map(grouping)\<close> gives NaN for a label that is no key of the
  dictionary, and \<^verbatim>\<open>groupby('group')\<close> drops the rows whose key is NaN; the groups
  come in the order of their keys, each with its rows in table order.
\<close>

definition to_process ::
  "aligned list \<Rightarrow> (string \<rightharpoonup> string) option \<Rightarrow> (string \<times> aligned list) list"
where
  "to_process combined grouping =
     (case grouping of
        None \<Rightarrow> [(''all'', combined)]
      | Some m \<Rightarrow>
          map (\<lambda>k. (k, filter (\<lambda>r. m (label r) = Some k) combined))
            (sort (remdups (List.map_filter (\<lambda>r. m (label r)) combined))))"

fun curve_loop ::
  "float_sub \<Rightarrow> pr_curve \<Rightarrow> bool \<Rightarrow> (string \<times> aligned list) list \<Rightarrow> error + curve_point list list"
where
  "curve_loop fsub prc filtered [] = Inr []"
| "curve_loop fsub prc filtered (g # gs) =
     (case process_group fsub prc filtered g of
        Inl e \<Rightarrow> Inl e
      | Inr df \<Rightarrow>
          (case curve_loop fsub prc filtered gs of
             Inl e \<Rightarrow> Inl e
           | Inr output_dfs \<Rightarrow> Inr (df # output_dfs)))"

text \<open>\<^verbatim>\<open>pd.concat\<close>: it raises \<^verbatim>\<open>ValueError\<close> on an empty list of tables.\<close>

definition pd_concat :: "'a list list \<Rightarrow> error + 'a list" where
  "pd_concat dfs = (if dfs = [] then Inl ValueError else Inr (concat dfs))"

definition get_pr_curve_df ::
  "float_sub \<Rightarrow> pr_curve \<Rightarrow> prediction list \<Rightarrow> truth list \<Rightarrow> (string \<rightharpoonup> string) option \<Rightarrow> bool
     \<Rightarrow> error + curve_point list"
where
  "get_pr_curve_df fsub prc predictions_df ground_truth_df grouping filtered =
     (let combined = merge_predictions_and_ground_truth predictions_df ground_truth_df
      in case curve_loop fsub prc filtered (to_process combined grouping) of
           Inl e \<Rightarrow> Inl e
         | Inr output_dfs \<Rightarrow> pd_concat output_dfs)"

text \<open>
  Modelled from the spec: \<^verbatim>\<open>sklearn.metrics.precision_recall_curve\<close> is library code
  outside the repository. The standard definition: the distinct scores are the
  thresholds; at threshold \<open>t\<close> the rows with score \<open>\<ge> t\<close> are predicted positive,
  precision is TP / (TP + FP) and recall is TP / (number of positives); the points come
  in ascending threshold order, followed by the final point (precision 1, recall 0)
  that has no threshold. Data with no row at all is refused as not binary. (With no
  positive row the library's recall is NaN; the division below gives 0 there.)
\<close>

definition precision_recall_curve :: pr_curve where
  "precision_recall_curve y_true probas_pred =
     (if y_true = [] \<or> length y_true \<noteq> length probas_pred then Inl ValueError
      else
        (let rows = zip y_true probas_pred;
             thresholds = sort (remdups probas_pred);
             tps = (\<lambda>t. real (length (filter (\<lambda>(y, s). y \<and> s \<ge> t) rows)));
             fps = (\<lambda>t. real (length (filter (\<lambda>(y, s). \<not> y \<and> s \<ge> t) rows)));
             positives = real (length (filter (\<lambda>y. y) y_true))
         in Inr (map (\<lambda>t. tps t / (tps t + fps t)) thresholds @ [1],
                 map (\<lambda>t. tps t / positives) thresholds @ [0],
                 thresholds)))"

declare chunks.simps [simp del]

section \<open>Batch Reader: proofs\<close>

lemma chunks_Nil [simp]: "chunks n [] = []"
  by (simp add: chunks.simps)

lemma chunks_short: "0 < n \<Longrightarrow> xs \<noteq> [] \<Longrightarrow> length xs \<le> n \<Longrightarrow> chunks n xs = [xs]"
  by (subst chunks.simps) simp

lemma chunks_full:
  "0 < n \<Longrightarrow> length xs = n \<Longrightarrow> chunks n (xs @ ys) = xs # chunks n ys"
  by (subst chunks.simps) auto

lemma vstack_uniform:
  "ps \<noteq> [] \<Longrightarrow> \<forall>v\<in>set ps. length v = V \<Longrightarrow> vstack ps = Inr ps"
  by (cases ps) (auto simp: vstack_def list_all_iff)

lemma batch_loop_chunks:
  assumes "0 < B"
    and "\<forall>r\<in>set recs. length (snd r) = V"
    and "\<forall>v\<in>set preds. length v = V"
    and "length ids = length preds"
    and "counter = int (length ids)"
    and "length ids < nat B"
  shows "batch_loop B recs counter preds ids =
           (map unzip (chunks (nat B) (zip ids preds @ recs)), None)"
  using assms
proof (induction recs arbitrary: counter preds ids)
  case Nil
  show ?case
  proof (cases "ids = []")
    case True
    then show ?thesis by simp
  next
    case False
    with Nil have ne: "preds \<noteq> []" by auto
    have "vstack preds = Inr preds"
      using ne Nil.prems(3) by (intro vstack_uniform [of preds V])
    moreover have "chunks (nat B) (zip ids preds) = [zip ids preds]"
      using Nil.prems False ne by (intro chunks_short) auto
    ultimately show ?thesis
      using False ne Nil.prems(4) by (simp add: unzip_def)
  qed
next
  case (Cons r recs)
  let ?ids = "ids @ [fst r]" and ?preds = "preds @ [snd r]"
  have zip': "zip ?ids ?preds = zip ids preds @ [r]"
    using Cons.prems(4) by simp
  have unif: "\<forall>v\<in>set ?preds. length v = V"
    using Cons.prems(2,3) by auto
  have vs: "vstack ?preds = Inr ?preds"
    using vstack_uniform [of ?preds V] unif by simp
  show ?case
  proof (cases "counter + 1 = B")
    case True
    then have len: "length (zip ?ids ?preds) = nat B"
      using Cons.prems(4,5) by simp
    have rest: "batch_loop B recs 0 [] [] = (map unzip (chunks (nat B) (zip [] [] @ recs)), None)"
      using Cons.prems by (intro Cons.IH) auto
    have "chunks (nat B) (zip ?ids ?preds @ recs) = zip ?ids ?preds # chunks (nat B) recs"
      using Cons.prems(1) len by (intro chunks_full) auto
    then have "chunks (nat B) (zip ids preds @ r # recs) = zip ?ids ?preds # chunks (nat B) recs"
      by (simp add: zip')
    moreover have "unzip (zip ?ids ?preds) = (?ids, ?preds)"
      using Cons.prems(4) by (simp add: unzip_def)
    ultimately show ?thesis
      using True vs rest by (simp add: Let_def yield_def)
  next
    case False
    have "batch_loop B recs (counter + 1) ?preds ?ids =
            (map unzip (chunks (nat B) (zip ?ids ?preds @ recs)), None)"
      using Cons.prems False unif by (intro Cons.IH) auto
    then show ?thesis
      using False by (simp add: Let_def zip')
  qed
qed

lemma batch_inferences_chunks:
  assumes "0 < B" and "\<forall>r\<in>set recs. length (snd r) = V"
  shows "batch_inferences recs B = (map unzip (chunks (nat B) recs), None)"
  using batch_loop_chunks [of B recs V "[]" "[]" 0] assms
  by (simp add: batch_inferences_def)

lemma chunks_step: "0 < n \<Longrightarrow> xs \<noteq> [] \<Longrightarrow> chunks n xs = take n xs # chunks n (drop n xs)"
  by (subst chunks.simps) simp

lemma concat_chunks: "0 < n \<Longrightarrow> concat (chunks n xs) = xs"
proof (induction n xs rule: chunks.induct)
  case (1 n xs)
  show ?case
  proof (cases "xs = []")
    case True
    then show ?thesis by simp
  next
    case False
    with 1 show ?thesis by (simp add: chunks_step)
  qed
qed

lemma chunks_bounds: "0 < n \<Longrightarrow> c \<in> set (chunks n xs) \<Longrightarrow> c \<noteq> [] \<and> length c \<le> n"
proof (induction n xs rule: chunks.induct)
  case (1 n xs)
  show ?case
  proof (cases "xs = []")
    case True
    with 1 show ?thesis by simp
  next
    case False
    with 1 show ?thesis by (auto simp: chunks_step)
  qed
qed

lemma batch_sizes_step:
  "0 < n \<Longrightarrow> n \<le> R \<Longrightarrow> batch_sizes n R = n # batch_sizes n (R - n)"
  by (simp add: batch_sizes_def le_div_geq le_mod_geq)

lemma batch_sizes_short: "0 < R \<Longrightarrow> R < n \<Longrightarrow> batch_sizes n R = [R]"
  by (simp add: batch_sizes_def)

lemma map_length_chunks: "0 < n \<Longrightarrow> map length (chunks n xs) = batch_sizes n (length xs)"
proof (induction n xs rule: chunks.induct)
  case (1 n xs)
  show ?case
  proof (cases "xs = []")
    case True
    then show ?thesis by (simp add: batch_sizes_def)
  next
    case False
    show ?thesis
    proof (cases "n \<le> length xs")
      case True
      with 1 False show ?thesis by (simp add: chunks_step batch_sizes_step)
    next
      case False
      with 1 \<open>xs \<noteq> []\<close> show ?thesis by (simp add: chunks_short batch_sizes_short)
    qed
  qed
qed

lemma length_batch_sizes: "0 < n \<Longrightarrow> int (length (batch_sizes n R)) = \<lceil>real R / real n\<rceil>"
proof -
  assume n: "0 < n"
  have m: "(int R mod int n = 0) = (R mod n = 0)"
    by (metis of_nat_mod of_nat_eq_0_iff)
  have "\<lceil>real R / real n\<rceil> = - (- int R div int n)"
    using ceiling_divide_eq_div [of "int R" "int n"] by simp
  also have "\<dots> = int (R div n) + (if R mod n = 0 then 0 else 1)"
    using n m by (simp add: zdiv_zminus1_eq_if zdiv_int)
  finally show ?thesis by (simp add: batch_sizes_def)
qed


lemma zipb_unzip: "(\<lambda>(ids, m). zip ids m) (unzip c) = c"
  by (simp add: unzip_def zip_map_fst_snd)

lemma concat_zip_unzip: "concat (map (\<lambda>(ids, m). zip ids m) (map unzip cs)) = concat cs"
  by (induction cs) (simp_all add: unzip_def zip_map_fst_snd)

text \<open>
  Claim C3. For a positive batch size \<open>B\<close> and a finite iterator of \<open>R\<close> records (confidence
  vectors of one length, as \<^verbatim>\<open>np.vstack\<close> requires), \<^verbatim>\<open>batch_inferences\<close> returns
  normally after yielding exactly \<open>\<lceil>R / B\<rceil>\<close> batches; every batch but the last has \<open>B\<close>
  records, the last has \<open>R mod B\<close> records, or \<open>B\<close> when \<open>R mod B = 0\<close>; with no record
  there is no batch.
\<close>

theorem batch_inferences_count:
  assumes "0 < B" and "\<forall>r\<in>set recs. length (snd r) = V"
  shows "\<exists>batches. batch_inferences recs B = (batches, None)
           \<and> int (length batches) = \<lceil>real (length recs) / real_of_int B\<rceil>
           \<and> map (\<lambda>b. length (fst b)) batches = batch_sizes (nat B) (length recs)
           \<and> (\<forall>i. Suc i < length batches \<longrightarrow> int (length (fst (batches ! i))) = B)
           \<and> (batches \<noteq> [] \<longrightarrow> length (fst (last batches)) =
                 (if length recs mod nat B = 0 then nat B else length recs mod nat B))
           \<and> (recs = [] \<longrightarrow> batches = [])"
proof -
  let ?n = "nat B" and ?R = "length recs"
  let ?bs = "map unzip (chunks ?n recs)"
  have n: "0 < ?n" using assms(1) by simp
  have run: "batch_inferences recs B = (?bs, None)"
    using assms by (rule batch_inferences_chunks)
  have sizes: "map (\<lambda>b. length (fst b)) ?bs = batch_sizes ?n ?R"
    using map_length_chunks [OF n, of recs] by (simp add: unzip_def comp_def)
  have count: "int (length ?bs) = \<lceil>real ?R / real_of_int B\<rceil>"
  proof -
    have "length ?bs = length (batch_sizes ?n ?R)"
      using sizes by (metis length_map)
    then show ?thesis
      using length_batch_sizes [OF n, of ?R] assms(1) by simp
  qed
  have full: "int (length (fst (?bs ! i))) = B" if "Suc i < length ?bs" for i
  proof -
    have len: "length ?bs = length (batch_sizes ?n ?R)"
      using sizes by (metis length_map)
    have "length (fst (?bs ! i)) = map (\<lambda>b. length (fst b)) ?bs ! i"
      using that by simp
    also have "\<dots> = batch_sizes ?n ?R ! i" by (simp only: sizes)
    also have "\<dots> = ?n"
      using that len by (auto simp: batch_sizes_def nth_append split: if_splits)
    finally show ?thesis using assms(1) by simp
  qed
  have lastb: "length (fst (last ?bs)) =
      (if ?R mod ?n = 0 then ?n else ?R mod ?n)" if "?bs \<noteq> []"
  proof -
    have "length (fst (last ?bs)) = last (map (\<lambda>b. length (fst b)) ?bs)"
      using that by (simp add: last_map)
    also have "\<dots> = last (batch_sizes ?n ?R)" by (simp only: sizes)
    also have "\<dots> = (if ?R mod ?n = 0 then ?n else ?R mod ?n)"
    proof (cases "?R mod ?n = 0")
      case True
      have "batch_sizes ?n ?R \<noteq> []"
        using that sizes by (metis map_is_Nil_conv)
      with True show ?thesis by (auto simp: batch_sizes_def)
    next
      case False
      then show ?thesis by (simp add: batch_sizes_def)
    qed
    finally show ?thesis .
  qed
  have empty: "recs = [] \<longrightarrow> ?bs = []" by simp
  show ?thesis
    using run count sizes full lastb empty by blast
qed

text \<open>
  Claim C10. For a positive batch size \<open>B\<close>, every batch that \<^verbatim>\<open>batch_inferences\<close>
  yields, the last one included, is a pair of as many identifiers as matrix rows, holds
  between 1 and \<open>B\<close> records, and pairing the identifiers of the batches with their rows
  gives back the input records in input order.
\<close>

theorem batch_inferences_wellformed:
  assumes "0 < B" and "\<forall>r\<in>set recs. length (snd r) = V"
  shows "\<exists>batches. batch_inferences recs B = (batches, None)
           \<and> (\<forall>b\<in>set batches. length (fst b) = length (snd b)
                  \<and> 1 \<le> length (fst b) \<and> int (length (fst b)) \<le> B)
           \<and> concat (map (\<lambda>(ids, m). zip ids m) batches) = recs"
proof -
  let ?n = "nat B"
  let ?bs = "map unzip (chunks ?n recs)"
  have n: "0 < ?n" using assms(1) by simp
  have run: "batch_inferences recs B = (?bs, None)"
    using assms by (rule batch_inferences_chunks)
  have each: "length (fst b) = length (snd b) \<and> 1 \<le> length (fst b) \<and> int (length (fst b)) \<le> B"
    if "b \<in> set ?bs" for b
  proof -
    from that obtain c where c: "c \<in> set (chunks ?n recs)" and b: "b = unzip c" by auto
    have "c \<noteq> [] \<and> length c \<le> ?n" using chunks_bounds [OF n c] .
    then show ?thesis using b assms(1) by (cases c) (auto simp: unzip_def)
  qed
  have "concat (map (\<lambda>(ids, m). zip ids m) ?bs) = recs"
    using concat_zip_unzip [of "chunks ?n recs"] concat_chunks [OF n, of recs] by simp
  with run each show ?thesis by blast
qed

lemma from_files_chunks:
  assumes "0 < B" and "\<forall>f\<in>set fs. \<forall>r\<in>set (parse f). length (snd r) = V"
  shows "batched_inferences_from_files parse fs B =
           (concat (map (\<lambda>f. map unzip (chunks (nat B) (parse f))) fs), None)"
  using assms(2)
proof (induction fs)
  case Nil
  then show ?case by simp
next
  case (Cons f fs)
  have "batch_inferences (parse f) B = (map unzip (chunks (nat B) (parse f)), None)"
    using assms(1) Cons.prems by (intro batch_inferences_chunks [where V = V]) simp_all
  moreover have "batched_inferences_from_files parse fs B =
           (concat (map (\<lambda>f. map unzip (chunks (nat B) (parse f))) fs), None)"
    using Cons by simp
  ultimately show ?case by simp
qed

text \<open>
  Claim C2, as amended. Across several files accumulation does not carry over: each
  file is batched by a generator of its own, so the batches are those of the first file,
  then those of the second, and so on; a file of \<open>R\<close> records contributes batches of the
  sizes \<open>batch_sizes B R\<close> (its partial last batch is yielded at the end of the file, and
  a file with no record contributes no batch), and the records of the batches are the
  records of the files in file order.
\<close>

theorem from_files_per_file:
  assumes "0 < B" and "\<forall>f\<in>set fs. \<forall>r\<in>set (parse f). length (snd r) = V"
  shows "\<exists>batches. batched_inferences_from_files parse fs B = (batches, None)
           \<and> batches = concat (map (\<lambda>f. fst (batch_inferences (parse f) B)) fs)
           \<and> map (\<lambda>b. length (fst b)) batches =
               concat (map (\<lambda>f. batch_sizes (nat B) (length (parse f))) fs)
           \<and> concat (map (\<lambda>(ids, m). zip ids m) batches) = concat (map parse fs)"
proof -
  let ?n = "nat B"
  let ?per = "\<lambda>f. map unzip (chunks ?n (parse f))"
  let ?bs = "concat (map ?per fs)"
  have n: "0 < ?n" using assms(1) by simp
  have run: "batched_inferences_from_files parse fs B = (?bs, None)"
    using assms by (rule from_files_chunks)
  have per: "fst (batch_inferences (parse f) B) = ?per f" if "f \<in> set fs" for f
    using batch_inferences_chunks [OF assms(1), of "parse f" V] assms(2) that by simp
  have a: "?bs = concat (map (\<lambda>f. fst (batch_inferences (parse f) B)) fs)"
    using per by (metis (mono_tags, lifting) map_eq_conv)
  have b: "map (\<lambda>b. length (fst b)) ?bs =
               concat (map (\<lambda>f. batch_sizes ?n (length (parse f))) fs)"
  proof -
    have "map (\<lambda>b. length (fst b)) (?per f) = batch_sizes ?n (length (parse f))" for f
      using map_length_chunks [OF n, of "parse f"] by (simp add: unzip_def comp_def)
    then show ?thesis by (simp add: map_concat comp_def)
  qed
  have c: "concat (map (\<lambda>(ids, m). zip ids m) ?bs) = concat (map parse fs)"
  proof -
    have "?bs = map unzip (concat (map (\<lambda>f. chunks ?n (parse f)) fs))"
      by (simp add: map_concat comp_def)
    then have "concat (map (\<lambda>(ids, m). zip ids m) ?bs) =
        concat (concat (map (\<lambda>f. chunks ?n (parse f)) fs))"
      using concat_zip_unzip by metis
    also have "\<dots> = concat (map parse fs)"
      by (induction fs) (simp_all add: concat_chunks [OF n])
    finally show ?thesis .
  qed
  show ?thesis using run a b c by blast
qed

theorem batch_inferences_count_witness:
  "batch_inferences [(''a'', [1]), (''b'', [2]), (''c'', [3])] 2 =
     ([([''a'', ''b''], [[1], [2]]), ([''c''], [[3]])], None)
   \<and> \<lceil>real (length [(''a'', [1::real]), (''b'', [2]), (''c'', [3])]) / real_of_int 2\<rceil> = 2
   \<and> batch_sizes (nat 2) 3 = [2, 1]"
  using batch_inferences_count [of 2 "[(''a'', [1]), (''b'', [2]), (''c'', [3])]" 1]
  by (simp add: batch_inferences_def vstack_def yield_def batch_sizes_def)

theorem batch_inferences_wellformed_witness:
  "batch_inferences [(''a'', [1]), (''b'', [2]), (''c'', [3])] 2 =
     ([([''a'', ''b''], [[1], [2]]), ([''c''], [[3]])], None)
   \<and> concat (map (\<lambda>(ids, m). zip ids m) [([''a'', ''b''], [[1], [2]]), ([''c''], [[3::real]])])
       = [(''a'', [1]), (''b'', [2]), (''c'', [3])]"
  using batch_inferences_wellformed [of 2 "[(''a'', [1]), (''b'', [2]), (''c'', [3])]" 1]
  by (simp add: batch_inferences_def vstack_def yield_def)

text \<open>
  Claim C2 as stated fails: two files of one record each, batch size 2. Read as one
  logical stream the two records form one batch; the reader yields the record of the
  first file as a batch of its own at the file boundary.
\<close>

theorem from_files_carry_over_counterexample:
  "batched_inferences_from_files (\<lambda>f. f) [[(''a'', [1])], [(''b'', [1])]] 2
     = ([([''a''], [[1]]), ([''b''], [[1]])], None)
   \<and> batch_inferences (concat (map (\<lambda>f. f) [[(''a'', [1])], [(''b'', [1])]])) 2
     = ([([''a'', ''b''], [[1], [1]])], None)
   \<and> batched_inferences_from_files (\<lambda>f. f) [[(''a'', [1])], [(''b'', [1])]] 2
     \<noteq> batch_inferences (concat (map (\<lambda>f. f) [[(''a'', [1])], [(''b'', [1])]])) 2"
  by (simp add: batch_inferences_def vstack_def yield_def)

theorem from_files_per_file_witness:
  "batched_inferences_from_files (\<lambda>f. f) [[(''a'', [1])], [], [(''b'', [1])]] 2
     = ([([''a''], [[1]]), ([''b''], [[1]])], None)
   \<and> concat (map (\<lambda>f. batch_sizes (nat 2) (length f))
        [[(''a'', [1::real])], [], [(''b'', [1])]]) = [1, 1]"
  using from_files_per_file [of 2 "[[(''a'', [1])], [], [(''b'', [1])]]" "\<lambda>f. f" 1]
  by (simp add: batch_inferences_def vstack_def yield_def batch_sizes_def)

section \<open>Sparsifier: proofs\<close>

lemma tidy_row_loop_ok:
  "\<forall>j\<in>set js. j < length vocab \<Longrightarrow>
     tidy_row_loop u preds vocab js = Inr (map (\<lambda>j. (u, vocab ! j, preds ! j)) js)"
  by (induction js) simp_all

lemma argwhere_gt_bound: "j \<in> set (argwhere_gt preds t) \<Longrightarrow> j < length preds"
  by (simp add: argwhere_gt_def)

lemma tidy_loop_ok:
  assumes "\<forall>i\<in>set is. i < length M" and "\<forall>row\<in>set M. length row = length vocab"
  shows "tidy_loop names M vocab t is =
           Inr (concat (map (\<lambda>i. map (\<lambda>j. (names ! i, vocab ! j, M ! i ! j))
                                   (argwhere_gt (M ! i) t)) is))"
  using assms(1)
proof (induction "is")
  case Nil
  then show ?case by simp
next
  case (Cons i "is")
  have i: "i < length M" using Cons.prems by simp
  then have "length (M ! i) = length vocab" using assms(2) by simp
  then have "\<forall>j\<in>set (argwhere_gt (M ! i) t). j < length vocab"
    using argwhere_gt_bound by fastforce
  then have "tidy_row_loop (names ! i) (M ! i) vocab (argwhere_gt (M ! i) t) =
      Inr (map (\<lambda>j. (names ! i, vocab ! j, M ! i ! j)) (argwhere_gt (M ! i) t))"
    by (rule tidy_row_loop_ok)
  moreover have "tidy_loop names M vocab t is =
           Inr (concat (map (\<lambda>i. map (\<lambda>j. (names ! i, vocab ! j, M ! i ! j))
                                   (argwhere_gt (M ! i) t)) is))"
    using Cons by simp
  ultimately show ?case using i by (simp add: Let_def)
qed

lemma map_filter_product:
  "map f (filter P (List.product is js)) =
     concat (map (\<lambda>i. map (\<lambda>j. f (i, j)) (filter (\<lambda>j. P (i, j)) js)) is)"
  by (induction "is") (simp_all add: filter_map comp_def)

text \<open>
  Claim C1. For \<open>N\<close> identifiers, an \<open>N \<times> V\<close> matrix \<open>M\<close>, a vocabulary of length \<open>V\<close> and a
  threshold \<open>t\<close>, the Sparsifier returns one tidy row for each position \<open>(i, v)\<close> with
  \<open>M[i,v] > t\<close> (strictly) and no other row: the rows are the images of the list \<open>idx\<close> of
  those positions, which has no repetition, and the row of \<open>(i, v)\<close> carries the
  identifier of example \<open>i\<close>, the vocabulary label of column \<open>v\<close> and the matrix value.
  Rows come in example order, and within an example in ascending column order.
\<close>

theorem make_tidy_exact:
  assumes "length M = length names"
    and "\<forall>row\<in>set M. length row = length vocab"
  shows "\<exists>idx. idx = filter (\<lambda>(i, v). M ! i ! v > t)
                        (List.product [0..<length names] [0..<length vocab])
           \<and> make_tidy_df_from_seq_names_and_prediction_array names M vocab t =
               Inr (map (\<lambda>(i, v). (names ! i, vocab ! v, M ! i ! v)) idx)
           \<and> distinct idx
           \<and> (\<forall>i v. (i, v) \<in> set idx \<longleftrightarrow>
                  i < length names \<and> v < length vocab \<and> M ! i ! v > t)
           \<and> (\<forall>(i, v)\<in>set idx. M ! i ! v > t)"
proof -
  let ?idx = "filter (\<lambda>(i, v). M ! i ! v > t)
                (List.product [0..<length names] [0..<length vocab])"
  have rows: "argwhere_gt (M ! i) t = filter (\<lambda>j. M ! i ! j > t) [0..<length vocab]"
    if "i < length names" for i
    using that assms by (simp add: argwhere_gt_def)
  have "make_tidy_df_from_seq_names_and_prediction_array names M vocab t =
      Inr (concat (map (\<lambda>i. map (\<lambda>j. (names ! i, vocab ! j, M ! i ! j))
                                   (argwhere_gt (M ! i) t)) [0..<length names]))"
    unfolding make_tidy_df_from_seq_names_and_prediction_array_def
    using assms by (intro tidy_loop_ok) simp_all
  also have "concat (map (\<lambda>i. map (\<lambda>j. (names ! i, vocab ! j, M ! i ! j))
                                   (argwhere_gt (M ! i) t)) [0..<length names]) =
      concat (map (\<lambda>i. map (\<lambda>j. (names ! i, vocab ! j, M ! i ! j))
                     (filter (\<lambda>j. M ! i ! j > t) [0..<length vocab])) [0..<length names])"
    using rows by (intro arg_cong [where f = concat] map_cong) simp_all
  also have "\<dots> = map (\<lambda>(i, v). (names ! i, vocab ! v, M ! i ! v)) ?idx"
    using map_filter_product [of "\<lambda>(i, v). (names ! i, vocab ! v, M ! i ! v)"
        "\<lambda>(i, v). M ! i ! v > t" "[0..<length names]" "[0..<length vocab]"]
    by simp
  finally have run: "make_tidy_df_from_seq_names_and_prediction_array names M vocab t =
      Inr (map (\<lambda>(i, v). (names ! i, vocab ! v, M ! i ! v)) ?idx)" .
  have d: "distinct ?idx" by (simp add: distinct_product)
  have m: "\<forall>i v. (i, v) \<in> set ?idx \<longleftrightarrow>
                  i < length names \<and> v < length vocab \<and> M ! i ! v > t"
    by auto
  have g: "\<forall>(i, v)\<in>set ?idx. M ! i ! v > t" by auto
  show ?thesis using run d m g by blast
qed

theorem make_tidy_exact_witness:
  "make_tidy_df_from_seq_names_and_prediction_array [''seq1''] [[9/10, 0, 1/2]]
       [''A'', ''B'', ''C''] (3/10) =
     Inr [(''seq1'', ''A'', 9/10), (''seq1'', ''C'', 1/2)]"
  using make_tidy_exact [of "[[9/10, 0, 1/2]]" "[''seq1'']" "[''A'', ''B'', ''C'']" "3/10"]
  by (simp add: make_tidy_df_from_seq_names_and_prediction_array_def argwhere_gt_def)

section \<open>Aligner: proofs\<close>

lemma filter_no_key:
  "k \<notin> set (map truth_key G) \<Longrightarrow> filter (\<lambda>t. truth_key t = k) G = []"
  by (induction G) auto

lemma filter_one_key:
  "distinct (map truth_key G) \<Longrightarrow>
     filter (\<lambda>t. truth_key t = k) G =
       (case truth_lookup G k of None \<Rightarrow> [] | Some g \<Rightarrow> [(snd k, fst k, g)])"
proof (induction G)
  case Nil
  then show ?case by (simp add: truth_lookup_def)
next
  case (Cons t G)
  show ?case
  proof (cases "truth_key t = k")
    case True
    then have "k \<notin> set (map truth_key G)" using Cons.prems by auto
    then have "filter (\<lambda>t. truth_key t = k) G = []" by (rule filter_no_key)
    with True show ?thesis by (auto simp: truth_lookup_def truth_key_def)
  next
    case False
    with Cons show ?thesis by (auto simp: truth_lookup_def)
  qed
qed

lemma left_join_rows_distinct:
  assumes "distinct (map truth_key G)"
  shows "left_join_rows G p =
           [(fst p, fst (snd p), Some (snd (snd p)), truth_lookup G (pred_key p))]"
  unfolding left_join_rows_def filter_one_key [OF assms]
  by (cases "truth_lookup G (pred_key p)") simp_all

lemma pred_lookup_Some:
  assumes d: "distinct (map pred_key P)" and m: "p \<in> set P"
  shows "pred_lookup P (pred_key p) = Some (snd (snd p))"
proof -
  have "distinct (map fst (map (\<lambda>p. (pred_key p, snd (snd p))) P))"
    using d by (simp add: comp_def)
  moreover have "(pred_key p, snd (snd p)) \<in> set (map (\<lambda>p. (pred_key p, snd (snd p))) P)"
    using m by auto
  ultimately show ?thesis
    unfolding pred_lookup_def by (rule map_of_is_SomeI)
qed

lemma truth_lookup_Some:
  assumes d: "distinct (map truth_key G)" and m: "t \<in> set G"
  shows "truth_lookup G (truth_key t) = Some (snd (snd t))"
proof -
  have "distinct (map fst (map (\<lambda>t. (truth_key t, snd (snd t))) G))"
    using d by (simp add: comp_def)
  moreover have "(truth_key t, snd (snd t)) \<in> set (map (\<lambda>t. (truth_key t, snd (snd t))) G)"
    using m by auto
  ultimately show ?thesis
    unfolding truth_lookup_def by (rule map_of_is_SomeI)
qed

lemma pred_lookup_None: "pred_lookup P k = None \<longleftrightarrow> k \<notin> set (map pred_key P)"
  by (simp add: pred_lookup_def map_of_eq_None_iff comp_def image_image)

lemma distinct_map_sort_key: "distinct (map f (sort_key g xs)) = distinct (map f xs)"
  by (simp add: distinct_map)

lemma aligned_key_fillna: "aligned_key (fillna_False j) = joined_key j"
  by (simp add: aligned_key_def fillna_False_def joined_key_def)

lemma merge_outer_distinct:
  assumes "distinct (map truth_key G)"
  shows "merge_outer P G =
     sort_key joined_key
       (map (\<lambda>p. (fst p, fst (snd p), Some (snd (snd p)), truth_lookup G (pred_key p))) P
        @ right_only_rows P G)"
proof -
  have "concat (map (left_join_rows G) P) =
      map (\<lambda>p. (fst p, fst (snd p), Some (snd (snd p)), truth_lookup G (pred_key p))) P"
    by (induction P) (simp_all add: left_join_rows_distinct [OF assms])
  then show ?thesis by (simp add: merge_outer_def)
qed

lemma merge_outer_keys:
  "map joined_key
     (map (\<lambda>p. (fst p, fst (snd p), Some (snd (snd p)), truth_lookup G (pred_key p))) P
      @ right_only_rows P G) =
   map pred_key P @ filter (\<lambda>k. k \<notin> set (map pred_key P)) (map truth_key G)"
  by (simp add: right_only_rows_def joined_key_def pred_key_def truth_key_def
      filter_map comp_def)

lemma merge_outer_cells:
  assumes dP: "distinct (map pred_key P)" and dG: "distinct (map truth_key G)"
    and j: "j \<in> set (merge_outer P G)"
  shows "fst (snd (snd j)) = pred_lookup P (joined_key j)
       \<and> snd (snd (snd j)) = truth_lookup G (joined_key j)"
proof -
  from j consider
    (left) p where "p \<in> set P"
      "j = (fst p, fst (snd p), Some (snd (snd p)), truth_lookup G (pred_key p))"
  | (right) t where "t \<in> set G" "truth_key t \<notin> set (map pred_key P)"
      "j = (fst t, fst (snd t), None, Some (snd (snd t)))"
    unfolding merge_outer_distinct [OF dG] by (auto simp: right_only_rows_def)
  then show ?thesis
  proof cases
    case left
    have "joined_key j = pred_key p" by (simp add: left(2) joined_key_def pred_key_def)
    then show ?thesis using pred_lookup_Some [OF dP left(1)] by (simp add: left(2))
  next
    case right
    have k: "joined_key j = truth_key t" by (simp add: right(3) joined_key_def truth_key_def)
    have "pred_lookup P (truth_key t) = None"
      using right(2) by (simp only: pred_lookup_None not_False_eq_True)
    then show ?thesis using truth_lookup_Some [OF dG right(1)] k by (simp add: right(3))
  qed
qed

text \<open>
  Claim C4. When the predictions table and the ground-truth table each hold at most one
  row per (example, label) key, every key of either table is the key of exactly one
  aligned row, so the number of aligned rows is the size of the union of the two key
  sets; the value of a row is the prediction at its key, or \<^verbatim>\<open>False\<close> when the
  predictions have no row there, and its gt is the ground truth at its key, or
  \<^verbatim>\<open>False\<close> when the ground truth has none. The filling is applied to the joined
  table, whose cells are still NaN (\<open>None\<close>) exactly where the source had no row.
\<close>

theorem merge_outer_join:
  assumes dP: "distinct (map pred_key P)" and dG: "distinct (map truth_key G)"
  shows "distinct (map aligned_key (merge_predictions_and_ground_truth P G))
    \<and> set (map aligned_key (merge_predictions_and_ground_truth P G)) =
        set (map pred_key P) \<union> set (map truth_key G)
    \<and> length (merge_predictions_and_ground_truth P G) =
        card (set (map pred_key P) \<union> set (map truth_key G))
    \<and> (\<forall>r\<in>set (merge_predictions_and_ground_truth P G).
          val r = (case pred_lookup P (aligned_key r) of
                     None \<Rightarrow> BoolV False | Some x \<Rightarrow> FloatV x)
        \<and> gt r = (case truth_lookup G (aligned_key r) of
                     None \<Rightarrow> BoolV False | Some b \<Rightarrow> BoolV b))
    \<and> merge_predictions_and_ground_truth P G = map fillna_False (merge_outer P G)
    \<and> (\<forall>j\<in>set (merge_outer P G).
          fst (snd (snd j)) = pred_lookup P (joined_key j)
        \<and> snd (snd (snd j)) = truth_lookup G (joined_key j))"
proof -
  let ?A = "merge_predictions_and_ground_truth P G"
  let ?U = "map (\<lambda>p. (fst p, fst (snd p), Some (snd (snd p)), truth_lookup G (pred_key p))) P
            @ right_only_rows P G"
  let ?K = "map pred_key P @ filter (\<lambda>k. k \<notin> set (map pred_key P)) (map truth_key G)"
  have A: "?A = map fillna_False (merge_outer P G)"
    by (simp add: merge_predictions_and_ground_truth_def)
  have J: "merge_outer P G = sort_key joined_key ?U"
    using merge_outer_distinct [OF dG] .
  have kf: "aligned_key \<circ> fillna_False = joined_key"
    by (auto simp: fun_eq_iff aligned_key_fillna)
  have keysU: "map joined_key ?U = ?K"
    using merge_outer_keys .
  have dK: "distinct ?K" using dP dG by (auto simp: distinct_map_filter)
  have sK: "set ?K = set (map pred_key P) \<union> set (map truth_key G)" by auto
  have d: "distinct (map aligned_key ?A)"
    unfolding A J map_map kf distinct_map_sort_key keysU using dK .
  have s: "set (map aligned_key ?A) = set (map pred_key P) \<union> set (map truth_key G)"
  proof -
    have "set (map aligned_key ?A) = set (map joined_key (sort_key joined_key ?U))"
      unfolding A J map_map kf ..
    also have "\<dots> = set (map joined_key ?U)"
      by (simp only: set_map set_sort)
    finally show ?thesis unfolding keysU sK .
  qed
  have n: "length ?A = card (set (map pred_key P) \<union> set (map truth_key G))"
  proof -
    have "length ?A = length (map aligned_key ?A)" by simp
    also have "\<dots> = card (set (map aligned_key ?A))"
      using distinct_card [OF d] by simp
    finally show ?thesis unfolding s .
  qed
  have cells: "\<forall>j\<in>set (merge_outer P G).
          fst (snd (snd j)) = pred_lookup P (joined_key j)
        \<and> snd (snd (snd j)) = truth_lookup G (joined_key j)"
    using merge_outer_cells [OF dP dG] by blast
  have rows: "val r = (case pred_lookup P (aligned_key r) of
                     None \<Rightarrow> BoolV False | Some x \<Rightarrow> FloatV x)
        \<and> gt r = (case truth_lookup G (aligned_key r) of
                     None \<Rightarrow> BoolV False | Some b \<Rightarrow> BoolV b)"
    if "r \<in> set ?A" for r
  proof -
    from that obtain j where j: "j \<in> set (merge_outer P G)" and r: "r = fillna_False j"
      unfolding A by auto
    have "fst (snd (snd j)) = pred_lookup P (joined_key j)
       \<and> snd (snd (snd j)) = truth_lookup G (joined_key j)"
      using merge_outer_cells [OF dP dG j] .
    then show ?thesis
      unfolding r aligned_key_fillna by (simp add: fillna_False_def)
  qed
  show ?thesis using d s n rows A cells by blast
qed

lemma merge_example:
  "merge_predictions_and_ground_truth
       [(''seq1'', ''A'', 9/10), (''seq1'', ''B'', 1/5)]
       [(''seq1'', ''A'', True), (''seq2'', ''A'', True)] =
     [\<lparr>up_id = ''seq1'', label = ''A'', val = FloatV (9/10), gt = BoolV True\<rparr>,
      \<lparr>up_id = ''seq2'', label = ''A'', val = BoolV False, gt = BoolV True\<rparr>,
      \<lparr>up_id = ''seq1'', label = ''B'', val = FloatV (1/5), gt = BoolV False\<rparr>]"
  by (simp add: merge_predictions_and_ground_truth_def merge_outer_def fillna_False_def
      left_join_rows_def right_only_rows_def joined_key_def pred_key_def truth_key_def
      less_eq_char_def less_char_def)

theorem merge_outer_join_witness:
  "merge_predictions_and_ground_truth
       [(''seq1'', ''A'', 9/10), (''seq1'', ''B'', 1/5)]
       [(''seq1'', ''A'', True), (''seq2'', ''A'', True)] =
     [\<lparr>up_id = ''seq1'', label = ''A'', val = FloatV (9/10), gt = BoolV True\<rparr>,
      \<lparr>up_id = ''seq2'', label = ''A'', val = BoolV False, gt = BoolV True\<rparr>,
      \<lparr>up_id = ''seq1'', label = ''B'', val = FloatV (1/5), gt = BoolV False\<rparr>]
   \<and> length (merge_predictions_and_ground_truth
       [(''seq1'', ''A'', 9/10), (''seq1'', ''B'', 1/5)]
       [(''seq1'', ''A'', True), (''seq2'', ''A'', True)]) =
     card (set (map pred_key [(''seq1'', ''A'', 9/10), (''seq1'', ''B'', 1/5)])
           \<union> set (map truth_key [(''seq1'', ''A'', True), (''seq2'', ''A'', True)]))"
proof -
  have p: "distinct (map pred_key [(''seq1'', ''A'', 9/10::real), (''seq1'', ''B'', 1/5)])"
    by (simp add: pred_key_def)
  have g: "distinct (map truth_key [(''seq1'', ''A'', True), (''seq2'', ''A'', True)])"
    by (simp add: truth_key_def)
  show ?thesis
    using merge_outer_join [OF p g] merge_example by blast
qed

section \<open>Confusion Assigner: proofs\<close>

lemma fillna_gt: "gt (fillna_False j) = BoolV True \<or> gt (fillna_False j) = BoolV False"
  by (auto simp: fillna_False_def split: option.splits)

lemma merge_gt:
  "a \<in> set (merge_predictions_and_ground_truth P G) \<Longrightarrow>
     gt a = BoolV True \<or> gt a = BoolV False"
  using fillna_gt by (auto simp: merge_predictions_and_ground_truth_def)

lemma py_eq_bool_BoolV [simp]: "py_eq_bool (BoolV b) c = (b = c)"
  by (simp add: py_eq_bool_def)

text \<open>
  Claim C5. On every row of the aligned table and for every threshold \<open>\<tau>\<close>: tp holds
  iff gt is true and value \<open>> \<tau>\<close>, fp iff gt is false and value \<open>> \<tau>\<close>, fn iff gt is true
  and value \<open>< \<tau>\<close>; no two of tp, fp, fn hold together; and a row whose value equals \<open>\<tau>\<close>
  has neither tp nor fn, whatever gt is. The value is read as Python compares it (a
  filled \<^verbatim>\<open>False\<close> is 0); the other columns are those of the aligned table.
\<close>

theorem assign_tp_fp_fn_rows:
  "(\<forall>r\<in>set (assign_tp_fp_fn P G \<tau>).
       (gt r = BoolV True \<or> gt r = BoolV False)
     \<and> tp r = (gt r = BoolV True \<and> py_num (val r) > \<tau>)
     \<and> fp r = (gt r = BoolV False \<and> py_num (val r) > \<tau>)
     \<and> fn r = (gt r = BoolV True \<and> py_num (val r) < \<tau>)
     \<and> \<not> (tp r \<and> fp r) \<and> \<not> (tp r \<and> fn r) \<and> \<not> (fp r \<and> fn r)
     \<and> (py_num (val r) = \<tau> \<longrightarrow> \<not> tp r \<and> \<not> fn r))
   \<and> map (\<lambda>r. (up_id r, label r, val r, gt r)) (assign_tp_fp_fn P G \<tau>) =
       map (\<lambda>a. (up_id a, label a, val a, gt a)) (merge_predictions_and_ground_truth P G)"
proof -
  have row: "(gt r = BoolV True \<or> gt r = BoolV False)
     \<and> tp r = (gt r = BoolV True \<and> py_num (val r) > \<tau>)
     \<and> fp r = (gt r = BoolV False \<and> py_num (val r) > \<tau>)
     \<and> fn r = (gt r = BoolV True \<and> py_num (val r) < \<tau>)
     \<and> \<not> (tp r \<and> fp r) \<and> \<not> (tp r \<and> fn r) \<and> \<not> (fp r \<and> fn r)
     \<and> (py_num (val r) = \<tau> \<longrightarrow> \<not> tp r \<and> \<not> fn r)"
    if "r \<in> set (assign_tp_fp_fn P G \<tau>)" for r
  proof -
    from that obtain a where a: "a \<in> set (merge_predictions_and_ground_truth P G)"
      and r: "r = assign_row \<tau> a"
      by (auto simp: assign_tp_fp_fn_def)
    from merge_gt [OF a] show ?thesis
      unfolding r by (auto simp: assign_row_def)
  qed
  have "map (\<lambda>r. (up_id r, label r, val r, gt r)) (assign_tp_fp_fn P G \<tau>) =
       map (\<lambda>a. (up_id a, label a, val a, gt a)) (merge_predictions_and_ground_truth P G)"
    by (simp add: assign_tp_fp_fn_def assign_row_def comp_def)
  with row show ?thesis by blast
qed

theorem assign_tp_fp_fn_rows_witness:
  "assign_tp_fp_fn [(''seq1'', ''A'', 1/2)] [(''seq1'', ''A'', True)] (1/2) =
     [\<lparr>up_id = ''seq1'', label = ''A'', val = FloatV (1/2), gt = BoolV True,
       tp = False, fp = False, fn = False\<rparr>]"
  using assign_tp_fp_fn_rows [of "[(''seq1'', ''A'', 1/2)]" "[(''seq1'', ''A'', True)]" "1/2"]
  by (simp add: assign_tp_fp_fn_def assign_row_def merge_predictions_and_ground_truth_def
      merge_outer_def fillna_False_def left_join_rows_def right_only_rows_def
      pred_key_def truth_key_def)

section \<open>Curve compaction: proofs\<close>

lemma filter_loop_append:
  "filter_loop fsub \<epsilon> ps rs ts (xs @ ys) st =
     (case filter_loop fsub \<epsilon> ps rs ts xs st of
        Inl e \<Rightarrow> Inl e
      | Inr st' \<Rightarrow> filter_loop fsub \<epsilon> ps rs ts ys st')"
  by (induction xs arbitrary: st) (auto split: sum.splits)

lemma sorted_le_last: "sorted xs \<Longrightarrow> y \<in> set xs \<Longrightarrow> y \<le> last xs"
  by (induction xs) auto

lemma Max_sorted_last:
  assumes "sorted_wrt (<) ks" and "ks \<noteq> []"
  shows "Max (set ks) = last ks"
proof (rule Max_eqI)
  show "finite (set ks)" by simp
  show "last ks \<in> set ks" using assms(2) by simp
  fix y assume y: "y \<in> set ks"
  have "sorted ks" using assms(1) by (simp add: strict_sorted_iff)
  then show "y \<le> last ks" using y by (rule sorted_le_last)
qed

lemma below_all: "set ks \<subseteq> {..<m} \<Longrightarrow> {k \<in> set ks. k < m} = set ks"
  by auto

lemma keeps_snoc_old:
  "i \<le> m \<Longrightarrow> keeps fsub \<epsilon> ps rs (ks @ [m]) i = keeps fsub \<epsilon> ps rs ks i"
proof -
  assume "i \<le> m"
  then have "{k \<in> set (ks @ [m]). k < i} = {k \<in> set ks. k < i}" by auto
  then show ?thesis by (simp only: keeps_def)
qed

lemma keeps_at_end:
  assumes "sorted_wrt (<) ks" and "set ks \<subseteq> {..<m}" and "ks \<noteq> []"
  shows "keeps fsub \<epsilon> ps rs ks m =
     (\<bar>fsub (ps ! m) (ps ! last ks)\<bar> \<ge> \<epsilon> \<or> \<bar>fsub (rs ! m) (rs ! last ks)\<bar> \<ge> \<epsilon>)"
proof -
  have "m \<noteq> 0" using assms(2,3) by (cases ks) auto
  moreover have "Max {k \<in> set ks. k < m} = last ks"
    using below_all [OF assms(2)] Max_sorted_last [OF assms(1,3)] by simp
  ultimately show ?thesis by (simp add: keeps_def)
qed

lemma filter_inv_nonempty:
  assumes "filter_inv fsub \<epsilon> ps rs ts m ks st" and "0 < m"
  shows "ks \<noteq> []"
proof -
  have "0 \<in> set ks \<longleftrightarrow> keeps fsub \<epsilon> ps rs ks 0"
    using assms by (simp add: filter_inv_def)
  then show ?thesis by (auto simp: keeps_def)
qed

lemma filter_inv_keep:
  assumes inv: "filter_inv fsub \<epsilon> ps rs ts m ks st"
    and k: "keep_point ps rs ts m st = Inr st'"
    and c: "keeps fsub \<epsilon> ps rs ks m"
  shows "filter_inv fsub \<epsilon> ps rs ts (Suc m) (ks @ [m]) st'"
proof -
  have st': "st' = \<lparr>last_precision = Some (ps ! m), last_recall = Some (rs ! m),
             new_precisions = new_precisions st @ [ps ! m],
             new_recalls = new_recalls st @ [rs ! m],
             new_thresholds = new_thresholds st @ [ts ! m]\<rparr>"
    using k by (auto simp: keep_point_def split: if_splits)
  have s: "sorted_wrt (<) (ks @ [m])"
    using inv by (auto simp: filter_inv_def sorted_wrt_append)
  have b: "set (ks @ [m]) \<subseteq> {..<Suc m}"
    using inv by (auto simp: filter_inv_def)
  have r: "i \<in> set (ks @ [m]) \<longleftrightarrow> keeps fsub \<epsilon> ps rs (ks @ [m]) i" if "i < Suc m" for i
  proof (cases "i = m")
    case True
    then show ?thesis using c by (simp add: keeps_snoc_old)
  next
    case False
    then have "i < m" using that by simp
    then show ?thesis using inv False by (simp add: keeps_snoc_old filter_inv_def)
  qed
  show ?thesis
    unfolding filter_inv_def
    using s b r inv by (simp add: st' filter_inv_def)
qed

lemma filter_inv_skip:
  assumes inv: "filter_inv fsub \<epsilon> ps rs ts m ks st"
    and c: "\<not> keeps fsub \<epsilon> ps rs ks m"
  shows "filter_inv fsub \<epsilon> ps rs ts (Suc m) ks st"
proof -
  have m: "m \<notin> set ks" using inv by (auto simp: filter_inv_def)
  have r: "i \<in> set ks \<longleftrightarrow> keeps fsub \<epsilon> ps rs ks i" if "i < Suc m" for i
  proof (cases "i = m")
    case True
    then show ?thesis using c m by simp
  next
    case False
    then have "i < m" using that by simp
    then show ?thesis using inv by (simp add: filter_inv_def)
  qed
  have "set ks \<subseteq> {..<Suc m}" using inv by (auto simp: filter_inv_def)
  then show ?thesis
    using r inv by (simp add: filter_inv_def)
qed

lemma filter_step_inv:
  assumes inv: "filter_inv fsub \<epsilon> ps rs ts m ks st"
    and step: "filter_step fsub \<epsilon> ps rs ts m st = Inr st'"
  shows "\<exists>ks'. filter_inv fsub \<epsilon> ps rs ts (Suc m) ks' st'"
proof (cases "ks = []")
  case True
  then have "m = 0" using filter_inv_nonempty [OF inv] by auto
  then have c: "keeps fsub \<epsilon> ps rs ks m" by (simp add: keeps_def)
  have "last_precision st = None" using inv True by (simp add: filter_inv_def)
  then have "keep_point ps rs ts m st = Inr st'"
    using step by (simp add: filter_step_def)
  from filter_inv_keep [OF inv this c] show ?thesis ..
next
  case False
  have lp: "last_precision st = Some (ps ! last ks)"
    and lr: "last_recall st = Some (rs ! last ks)"
    using inv False by (simp_all add: filter_inv_def)
  have c: "keeps fsub \<epsilon> ps rs ks m =
     (\<bar>fsub (ps ! m) (ps ! last ks)\<bar> \<ge> \<epsilon> \<or> \<bar>fsub (rs ! m) (rs ! last ks)\<bar> \<ge> \<epsilon>)"
    using inv False by (intro keeps_at_end) (simp_all add: filter_inv_def)
  show ?thesis
  proof (cases "keeps fsub \<epsilon> ps rs ks m")
    case True
    then have "keep_point ps rs ts m st = Inr st'"
      using step lp lr c by (auto simp: filter_step_def split: if_splits)
    from filter_inv_keep [OF inv this True] show ?thesis ..
  next
    case False
    then have "st' = st"
      using step lp lr c by (auto simp: filter_step_def split: if_splits)
    with filter_inv_skip [OF inv False] show ?thesis by auto
  qed
qed

lemma filter_loop_inv:
  assumes "filter_loop fsub \<epsilon> ps rs ts [0..<m]
             \<lparr>last_precision = None, last_recall = None, new_precisions = [],
              new_recalls = [], new_thresholds = []\<rparr> = Inr st"
  shows "\<exists>ks. filter_inv fsub \<epsilon> ps rs ts m ks st"
  using assms
proof (induction m arbitrary: st)
  case 0
  then have "filter_inv fsub \<epsilon> ps rs ts 0 [] st" by (auto simp: filter_inv_def)
  then show ?case ..
next
  case (Suc m)
  from Suc.prems obtain st0 where
    a: "filter_loop fsub \<epsilon> ps rs ts [0..<m]
             \<lparr>last_precision = None, last_recall = None, new_precisions = [],
              new_recalls = [], new_thresholds = []\<rparr> = Inr st0"
    and b: "filter_step fsub \<epsilon> ps rs ts m st0 = Inr st"
    by (auto simp: filter_loop_append split: sum.splits)
  from Suc.IH [OF a] obtain ks where "filter_inv fsub \<epsilon> ps rs ts m ks st0" ..
  from filter_step_inv [OF this b] show ?case .
qed


lemma filter_step_total:
  assumes inv: "filter_inv fsub \<epsilon> ps rs ts m ks st"
    and "m < length rs" and "m < length ts"
  shows "\<exists>st'. filter_step fsub \<epsilon> ps rs ts m st = Inr st'"
proof (cases "ks = []")
  case True
  then have "last_precision st = None" using inv by (simp add: filter_inv_def)
  then show ?thesis using assms(2,3) by (simp add: filter_step_def keep_point_def exact_sub_def)
next
  case False
  then have "last_precision st = Some (ps ! last ks)"
    and "last_recall st = Some (rs ! last ks)"
    using inv by (simp_all add: filter_inv_def)
  then show ?thesis using assms(2,3) by (simp add: filter_step_def keep_point_def exact_sub_def)
qed

lemma filter_loop_total:
  assumes "m \<le> length rs" and "m \<le> length ts"
  shows "\<exists>st. filter_loop fsub \<epsilon> ps rs ts [0..<m]
             \<lparr>last_precision = None, last_recall = None, new_precisions = [],
              new_recalls = [], new_thresholds = []\<rparr> = Inr st"
  using assms
proof (induction m)
  case 0
  then show ?case by simp
next
  case (Suc m)
  then obtain st0 where a: "filter_loop fsub \<epsilon> ps rs ts [0..<m]
             \<lparr>last_precision = None, last_recall = None, new_precisions = [],
              new_recalls = [], new_thresholds = []\<rparr> = Inr st0"
    by auto
  from filter_loop_inv [OF a] obtain ks where "filter_inv fsub \<epsilon> ps rs ts m ks st0" ..
  from filter_step_total [OF this] Suc.prems
  obtain st where "filter_step fsub \<epsilon> ps rs ts m st0 = Inr st" by auto
  with a show ?case by (simp add: filter_loop_append)
qed

lemma filter_pr_curve_kept:
  assumes "filter_pr_curve fsub ps rs ts \<epsilon> = Inr (ps', rs', ts')"
  shows "\<exists>ks st. filter_inv fsub \<epsilon> ps rs ts (length ps) ks st
           \<and> ps' = map (\<lambda>k. ps ! k) ks \<and> rs' = map (\<lambda>k. rs ! k) ks
           \<and> ts' = map (\<lambda>k. ts ! k) ks"
proof -
  from assms obtain st where a: "filter_loop fsub \<epsilon> ps rs ts [0..<length ps]
             \<lparr>last_precision = None, last_recall = None, new_precisions = [],
              new_recalls = [], new_thresholds = []\<rparr> = Inr st"
    and o: "ps' = new_precisions st" "rs' = new_recalls st" "ts' = new_thresholds st"
    by (auto simp: filter_pr_curve_def split: sum.splits)
  from filter_loop_inv [OF a] obtain ks where i: "filter_inv fsub \<epsilon> ps rs ts (length ps) ks st" ..
  then have "ps' = map (\<lambda>k. ps ! k) ks \<and> rs' = map (\<lambda>k. rs ! k) ks
           \<and> ts' = map (\<lambda>k. ts ! k) ks"
    using o by (simp add: filter_inv_def)
  with i show ?thesis by blast
qed

text \<open>
  Claim C6. For a curve of \<open>n\<close> points (three sequences of length \<open>n\<close>) and a resolution
  \<open>\<epsilon>\<close>, the compaction returns the points at an increasing list \<open>ks\<close> of positions, each
  with its own precision, recall and threshold; and position \<open>i\<close> is among them if and
  only if it is the first position, or its precision or its recall differs by at least
  \<open>\<epsilon>\<close> from that of the last kept position before \<open>i\<close>. The difference is the one
  the code computes and compares, the float subtraction \<open>fsub\<close>; the statement holds for
  every \<open>fsub\<close>, so for the rounding of the machine.
\<close>

theorem filter_pr_curve_rule:
  assumes "length rs = length ps" and "length ts = length ps"
  shows "\<exists>ks. filter_pr_curve fsub ps rs ts \<epsilon> =
                 Inr (map (\<lambda>k. ps ! k) ks, map (\<lambda>k. rs ! k) ks, map (\<lambda>k. ts ! k) ks)
           \<and> sorted_wrt (<) ks \<and> set ks \<subseteq> {..<length ps}
           \<and> (\<forall>i<length ps. i \<in> set ks \<longleftrightarrow>
                 (i = 0 \<or> \<bar>fsub (ps ! i) (ps ! Max {k \<in> set ks. k < i})\<bar> \<ge> \<epsilon>
                        \<or> \<bar>fsub (rs ! i) (rs ! Max {k \<in> set ks. k < i})\<bar> \<ge> \<epsilon>))"
proof -
  obtain st where "filter_loop fsub \<epsilon> ps rs ts [0..<length ps]
             \<lparr>last_precision = None, last_recall = None, new_precisions = [],
              new_recalls = [], new_thresholds = []\<rparr> = Inr st"
    using filter_loop_total [of "length ps" rs ts fsub \<epsilon> ps] assms by auto
  then have "filter_pr_curve fsub ps rs ts \<epsilon> =
      Inr (new_precisions st, new_recalls st, new_thresholds st)"
    by (simp add: filter_pr_curve_def)
  from filter_pr_curve_kept [OF this] obtain ks st' where
    "filter_inv fsub \<epsilon> ps rs ts (length ps) ks st'"
    and "new_precisions st = map (\<lambda>k. ps ! k) ks" "new_recalls st = map (\<lambda>k. rs ! k) ks"
    "new_thresholds st = map (\<lambda>k. ts ! k) ks"
    by blast
  with \<open>filter_pr_curve fsub ps rs ts \<epsilon> =
      Inr (new_precisions st, new_recalls st, new_thresholds st)\<close>
  have "filter_pr_curve fsub ps rs ts \<epsilon> =
                 Inr (map (\<lambda>k. ps ! k) ks, map (\<lambda>k. rs ! k) ks, map (\<lambda>k. ts ! k) ks)
           \<and> sorted_wrt (<) ks \<and> set ks \<subseteq> {..<length ps}
           \<and> (\<forall>i<length ps. i \<in> set ks \<longleftrightarrow> keeps fsub \<epsilon> ps rs ks i)"
    by (simp add: filter_inv_def)
  then show ?thesis unfolding keeps_def by blast
qed

theorem filter_pr_curve_rule_witness:
  "filter_pr_curve exact_sub [1/3, 0, 0] [1, 0, 0] [7/10, 8/10, 9/10] (1/1000) =
     Inr ([1/3, 0], [1, 0], [7/10, 8/10])"
  using filter_pr_curve_rule [of "[1, 0, 0]" "[1/3, 0, 0]" "[7/10, 8/10, 9/10]" exact_sub
      "1/1000"]
  by (simp add: filter_pr_curve_def filter_step_def keep_point_def exact_sub_def)


lemma Max_below_next:
  assumes s: "sorted_wrt (<) ks" and j: "Suc j < length ks"
  shows "Max {k \<in> set ks. k < ks ! Suc j} = ks ! j"
proof (rule Max_eqI)
  show "finite {k \<in> set ks. k < ks ! Suc j}" by simp
  show "ks ! j \<in> {k \<in> set ks. k < ks ! Suc j}"
    using sorted_wrt_nth_less [OF s, of j "Suc j"] j by simp
  fix y assume "y \<in> {k \<in> set ks. k < ks ! Suc j}"
  then obtain a where a: "a < length ks" "y = ks ! a" "ks ! a < ks ! Suc j"
    by (auto simp: in_set_conv_nth)
  have "a \<le> j"
  proof (rule ccontr)
    assume "\<not> a \<le> j"
    then have "Suc j = a \<or> Suc j < a" by auto
    then have "ks ! Suc j \<le> ks ! a"
      using sorted_wrt_nth_less [OF s, of "Suc j" a] a(1) by auto
    with a(3) show False by simp
  qed
  then have "a = j \<or> a < j" by auto
  then show "y \<le> ks ! j"
    using sorted_wrt_nth_less [OF s, of a j] j a(2) by auto
qed

lemma kept_chain:
  assumes inv: "filter_inv fsub \<epsilon> ps rs ts m ks st" and j: "Suc j < length ks"
  shows "\<bar>fsub (ps ! (ks ! Suc j)) (ps ! (ks ! j))\<bar> \<ge> \<epsilon> \<or> \<bar>fsub (rs ! (ks ! Suc j)) (rs ! (ks ! j))\<bar> \<ge> \<epsilon>"
proof -
  have s: "sorted_wrt (<) ks" using inv by (simp add: filter_inv_def)
  have mem: "ks ! Suc j \<in> set ks" using j by simp
  then have "ks ! Suc j < m" using inv by (auto simp: filter_inv_def)
  then have "keeps fsub \<epsilon> ps rs ks (ks ! Suc j)" using inv mem by (simp add: filter_inv_def)
  moreover have "ks ! Suc j \<noteq> 0"
    using sorted_wrt_nth_less [OF s, of j "Suc j"] j by simp
  ultimately show ?thesis
    by (simp add: keeps_def Max_below_next [OF s j])
qed

lemma Max_below_pred:
  assumes "i - 1 \<in> set ks" and "0 < i"
  shows "Max {k \<in> set ks. k < i} = i - (1::nat)"
proof (rule Max_eqI)
  show "finite {k \<in> set ks. k < i}" by simp
  show "i - 1 \<in> {k \<in> set ks. k < i}" using assms by simp
  fix y assume "y \<in> {k \<in> set ks. k < i}"
  then have "y < i" by simp
  then show "y \<le> i - 1" by arith
qed

lemma chain_all_kept:
  assumes inv: "filter_inv fsub \<epsilon> xs ys zs n ks st"
    and chain: "\<forall>j. Suc j < n \<longrightarrow>
        \<bar>fsub (xs ! Suc j) (xs ! j)\<bar> \<ge> \<epsilon> \<or> \<bar>fsub (ys ! Suc j) (ys ! j)\<bar> \<ge> \<epsilon>"
  shows "ks = [0..<n]"
proof -
  have all: "i < n \<Longrightarrow> i \<in> set ks" for i
  proof (induction i)
    case 0
    then show ?case using inv by (simp add: filter_inv_def keeps_def)
  next
    case (Suc i)
    then have "i \<in> set ks" by simp
    then have "Max {k \<in> set ks. k < Suc i} = i"
      using Max_below_pred [of "Suc i" ks] by simp
    moreover have "\<bar>fsub (xs ! Suc i) (xs ! i)\<bar> \<ge> \<epsilon> \<or> \<bar>fsub (ys ! Suc i) (ys ! i)\<bar> \<ge> \<epsilon>"
      using chain Suc.prems by simp
    ultimately have "keeps fsub \<epsilon> xs ys ks (Suc i)" by (simp add: keeps_def)
    then show ?case using inv Suc.prems by (simp add: filter_inv_def)
  qed
  have "set ks = set [0..<n]"
    using all inv by (auto simp: filter_inv_def)
  moreover have "sorted ks" "distinct ks"
    using inv by (simp_all add: filter_inv_def strict_sorted_iff)
  ultimately show ?thesis
    by (intro sorted_distinct_set_unique) simp_all
qed

text \<open>
  Claim C7. Whenever the compaction of a curve with resolution \<open>\<epsilon>\<close> returns a curve,
  compacting that curve again with the same \<open>\<epsilon>\<close> returns it unchanged, whatever the
  float subtraction \<open>fsub\<close> rounds to.
\<close>

theorem filter_pr_curve_idempotent:
  assumes "filter_pr_curve fsub ps rs ts \<epsilon> = Inr (ps', rs', ts')"
  shows "filter_pr_curve fsub ps' rs' ts' \<epsilon> = Inr (ps', rs', ts')"
proof -
  from filter_pr_curve_kept [OF assms] obtain ks st where
    inv: "filter_inv fsub \<epsilon> ps rs ts (length ps) ks st"
    and o: "ps' = map (\<lambda>k. ps ! k) ks" "rs' = map (\<lambda>k. rs ! k) ks"
      "ts' = map (\<lambda>k. ts ! k) ks"
    by blast
  have len: "length rs' = length ps'" "length ts' = length ps'" "length ps' = length ks"
    using o by simp_all
  have chain: "\<forall>j. Suc j < length ps' \<longrightarrow>
        \<bar>fsub (ps' ! Suc j) (ps' ! j)\<bar> \<ge> \<epsilon> \<or> \<bar>fsub (rs' ! Suc j) (rs' ! j)\<bar> \<ge> \<epsilon>"
    using kept_chain [OF inv] by (simp add: o)
  obtain st' where run: "filter_loop fsub \<epsilon> ps' rs' ts' [0..<length ps']
             \<lparr>last_precision = None, last_recall = None, new_precisions = [],
              new_recalls = [], new_thresholds = []\<rparr> = Inr st'"
    using filter_loop_total [of "length ps'" rs' ts' fsub \<epsilon> ps'] len by auto
  from filter_loop_inv [OF run] obtain ks' where
    inv': "filter_inv fsub \<epsilon> ps' rs' ts' (length ps') ks' st'" ..
  have ks': "ks' = [0..<length ps']"
    using chain_all_kept [OF inv' chain] .
  have "new_precisions st' = ps'" "new_recalls st' = rs'" "new_thresholds st' = ts'"
    using inv' len map_nth [of ps'] map_nth [of rs'] map_nth [of ts']
    by (simp_all add: filter_inv_def ks')
  then show ?thesis using run by (simp add: filter_pr_curve_def)
qed

theorem filter_pr_curve_idempotent_witness:
  "filter_pr_curve exact_sub [1/3, 0, 0] [1, 0, 0] [7/10, 8/10, 9/10] (1/1000) =
     Inr ([1/3, 0], [1, 0], [7/10, 8/10])
   \<and> filter_pr_curve exact_sub [1/3, 0] [1, 0] [7/10, 8/10] (1/1000) =
     Inr ([1/3, 0], [1, 0], [7/10, 8/10])"
proof -
  have a: "filter_pr_curve exact_sub [1/3, 0, 0] [1, 0, 0] [7/10, 8/10, 9/10] (1/1000) =
     Inr ([1/3, 0], [1, 0], [7/10, 8/10])"
    by (simp add: filter_pr_curve_def filter_step_def keep_point_def exact_sub_def)
  from filter_pr_curve_idempotent [OF a] a show ?thesis by simp
qed

section \<open>Curve Builder: proofs\<close>

lemma to_process_filter:
  "to_process (filter (\<lambda>r. m (label r) \<noteq> None) combined) (Some m) =
     to_process combined (Some m)"
proof -
  have a: "List.map_filter (\<lambda>r. m (label r)) (filter (\<lambda>r. m (label r) \<noteq> None) combined) =
      List.map_filter (\<lambda>r. m (label r)) combined"
    by (simp add: List.map_filter_def del: not_None_eq)
  have b: "filter (\<lambda>r. m (label r) = Some k) (filter (\<lambda>r. m (label r) \<noteq> None) combined) =
      filter (\<lambda>r. m (label r) = Some k) combined" for k
    by (induction combined) auto
  show ?thesis unfolding to_process_def option.case a b ..
qed

lemma to_process_rows:
  assumes "(name, rows) \<in> set (to_process combined (Some m))" and "r \<in> set rows"
  shows "r \<in> set combined \<and> m (label r) = Some name"
  using assms by (auto simp: to_process_def)

lemma left_join_rows_label: "x \<in> set (left_join_rows G p) \<Longrightarrow> fst (snd x) = fst (snd p)"
  by (auto simp: left_join_rows_def split: list.splits)

lemma left_join_rows_filter:
  assumes "Q (fst (snd p))"
  shows "left_join_rows (filter (\<lambda>t. Q (fst (snd t))) G) p = left_join_rows G p"
proof -
  have "filter (\<lambda>t. truth_key t = pred_key p) (filter (\<lambda>t. Q (fst (snd t))) G) =
      filter (\<lambda>t. truth_key t = pred_key p) G"
    using assms by (induction G) (auto simp: truth_key_def pred_key_def)
  then show ?thesis by (simp only: left_join_rows_def)
qed

lemma concat_left_filter:
  "concat (map (left_join_rows (filter (\<lambda>t. Q (fst (snd t))) G))
             (filter (\<lambda>p. Q (fst (snd p))) P)) =
     filter (\<lambda>j. Q (fst (snd j))) (concat (map (left_join_rows G) P))"
proof (induction P)
  case Nil
  then show ?case by simp
next
  case (Cons p P)
  show ?case
  proof (cases "Q (fst (snd p))")
    case True
    then have "filter (\<lambda>j. Q (fst (snd j))) (left_join_rows G p) = left_join_rows G p"
      unfolding filter_id_conv using left_join_rows_label [of _ G p] by simp
    with True Cons show ?thesis by (simp add: left_join_rows_filter)
  next
    case False
    then have "filter (\<lambda>j. Q (fst (snd j))) (left_join_rows G p) = []"
      unfolding filter_empty_conv using left_join_rows_label [of _ G p] by simp
    with False Cons show ?thesis by simp
  qed
qed

lemma key_in_filtered:
  assumes "Q (fst (snd t))"
  shows "truth_key t \<in> set (map pred_key (filter (\<lambda>p. Q (fst (snd p))) P)) \<longleftrightarrow>
         truth_key t \<in> set (map pred_key P)"
  using assms by (induction P) (auto simp: truth_key_def pred_key_def)

lemma right_only_filter:
  "right_only_rows (filter (\<lambda>p. Q (fst (snd p))) P) (filter (\<lambda>t. Q (fst (snd t))) G) =
     filter (\<lambda>j. Q (fst (snd j))) (right_only_rows P G)"
proof -
  have "filter (\<lambda>t. truth_key t \<notin> set (map pred_key (filter (\<lambda>p. Q (fst (snd p))) P)))
          (filter (\<lambda>t. Q (fst (snd t))) G) =
        filter (\<lambda>t. Q (fst (snd t)))
          (filter (\<lambda>t. truth_key t \<notin> set (map pred_key P)) G)"
    by (induction G) (simp_all add: key_in_filtered del: set_map)
  then show ?thesis
    by (simp add: right_only_rows_def filter_map comp_def del: set_map)
qed

lemma merge_outer_filter:
  "merge_outer (filter (\<lambda>p. Q (fst (snd p))) P) (filter (\<lambda>t. Q (fst (snd t))) G) =
     filter (\<lambda>j. Q (fst (snd j))) (merge_outer P G)"
  unfolding merge_outer_def filter_sort filter_append
  by (simp only: concat_left_filter right_only_filter)

lemma merge_filter:
  "merge_predictions_and_ground_truth
       (filter (\<lambda>p. Q (fst (snd p))) P) (filter (\<lambda>t. Q (fst (snd t))) G) =
     filter (\<lambda>r. Q (label r)) (merge_predictions_and_ground_truth P G)"
proof -
  have "(\<lambda>r. Q (label r)) \<circ> fillna_False = (\<lambda>j. Q (fst (snd j)))"
    by (auto simp: fun_eq_iff fillna_False_def)
  then show ?thesis
    by (simp add: merge_predictions_and_ground_truth_def merge_outer_filter filter_map)
qed


lemma to_process_names:
  assumes "(name, rows) \<in> set (to_process combined (Some m))"
  shows "name \<in> ran m"
proof -
  from assms have "name \<in> set (List.map_filter (\<lambda>r. m (label r)) combined)"
    by (auto simp: to_process_def)
  then obtain r :: aligned where "m (label r) = Some name"
    by (auto simp: List.map_filter_def)
  then show ?thesis by (rule ranI)
qed

lemma to_process_member:
  assumes "r \<in> set combined" and "m (label r) = Some k"
  shows "(k, filter (\<lambda>r. m (label r) = Some k) combined) \<in> set (to_process combined (Some m))"
proof -
  have "k \<in> set (List.map_filter (\<lambda>r. m (label r)) combined)"
    using assms by (force simp: List.map_filter_def)
  then show ?thesis by (simp add: to_process_def)
qed

lemma make_curve_df_group:
  "make_curve_df name ps rs ts = Inr df \<Longrightarrow> c \<in> set df \<Longrightarrow> group c = name"
  by (auto simp: make_curve_df_def split: if_splits)

lemma process_group_group:
  assumes "process_group fsub prc filtered (name, rows) = Inr df" and "c \<in> set df"
  shows "group c = name"
  using assms make_curve_df_group
  by (auto simp: process_group_def Let_def split: sum.splits if_splits prod.splits)

lemma curve_loop_groups:
  "curve_loop fsub prc filtered gs = Inr dfs \<Longrightarrow> c \<in> set (concat dfs) \<Longrightarrow>
     group c \<in> fst ` set gs"
proof (induction gs arbitrary: dfs)
  case Nil
  then show ?case by simp
next
  case (Cons g gs)
  obtain name rows where g: "g = (name, rows)" by (cases g) auto
  from Cons.prems(1) obtain df rest where
    d: "process_group fsub prc filtered g = Inr df"
    and r: "curve_loop fsub prc filtered gs = Inr rest" and dfs: "dfs = df # rest"
    by (auto split: sum.splits)
  from Cons.prems(2) dfs consider "c \<in> set df" | "c \<in> set (concat rest)" by auto
  then show ?case
  proof cases
    case 1
    then show ?thesis using process_group_group d g by auto
  next
    case 2
    then show ?thesis using Cons.IH [OF r] by auto
  qed
qed

lemma curve_example:
  "get_pr_curve_df exact_sub precision_recall_curve [(''s1'', ''A'', 9/10)] [(''s1'', ''A'', True)]
       (Some [''A'' \<mapsto> ''g1'']) True =
     Inr [\<lparr>group = ''g1'', precision = 1, recall = 1, threshold = 9/10, f1 = Some 1\<rparr>]"
  by (simp add: get_pr_curve_df_def merge_predictions_and_ground_truth_def merge_outer_def
      fillna_False_def left_join_rows_def right_only_rows_def pred_key_def truth_key_def
      to_process_def List.map_filter_def curve_loop.simps process_group_def
      precision_recall_curve_def filter_pr_curve_def filter_step_def keep_point_def exact_sub_def
      make_curve_df_def f1_score_def pd_concat_def)

text \<open>
  When no aligned row has a mapped label there is no group at all, and
  \<^verbatim>\<open>pd.concat\<close> of no table raises, as it does on empty input.
\<close>

lemma no_group_raises:
  assumes "\<forall>r\<in>set (merge_predictions_and_ground_truth P G). m (label r) = None"
  shows "get_pr_curve_df fsub prc P G (Some m) filtered = Inl ValueError"
proof -
  have "List.map_filter (\<lambda>r. m (label r)) (merge_predictions_and_ground_truth P G) = []"
    using assms by (simp add: List.map_filter_def filter_empty_conv)
  then show ?thesis
    by (simp add: get_pr_curve_df_def to_process_def pd_concat_def)
qed

lemma filter_pr_curve_total:
  assumes "length rs = length ps" and "length ts = length ps"
  shows "\<exists>ks st. filter_pr_curve fsub ps rs ts \<epsilon> =
                 Inr (map (\<lambda>k. ps ! k) ks, map (\<lambda>k. rs ! k) ks, map (\<lambda>k. ts ! k) ks)
           \<and> filter_inv fsub \<epsilon> ps rs ts (length ps) ks st"
proof -
  obtain st where "filter_loop fsub \<epsilon> ps rs ts [0..<length ps]
             \<lparr>last_precision = None, last_recall = None, new_precisions = [],
              new_recalls = [], new_thresholds = []\<rparr> = Inr st"
    using filter_loop_total [of "length ps" rs ts fsub \<epsilon> ps] assms by auto
  then have r: "filter_pr_curve fsub ps rs ts \<epsilon> =
      Inr (new_precisions st, new_recalls st, new_thresholds st)"
    by (simp add: filter_pr_curve_def)
  from filter_pr_curve_kept [OF this] obtain ks st' where
    "filter_inv fsub \<epsilon> ps rs ts (length ps) ks st'"
    and "new_precisions st = map (\<lambda>k. ps ! k) ks" "new_recalls st = map (\<lambda>k. rs ! k) ks"
    "new_thresholds st = map (\<lambda>k. ts ! k) ks"
    by blast
  with r show ?thesis by auto
qed

lemma kept_count:
  assumes "filter_inv fsub \<epsilon> ps rs ts n ks st"
  shows "length ks \<le> n \<and> (0 < n \<longrightarrow> 1 \<le> length ks)"
proof -
  have "distinct ks" and sub: "set ks \<subseteq> {..<n}"
    using assms by (simp_all add: filter_inv_def strict_sorted_iff)
  then have "length ks = card (set ks)" by (simp add: distinct_card)
  also have "\<dots> \<le> card {..<n}" using sub by (intro card_mono) simp_all
  finally have "length ks \<le> n" by simp
  moreover have "1 \<le> length ks" if "0 < n"
    using filter_inv_nonempty [OF assms that] by (cases ks) simp_all
  ultimately show ?thesis by blast
qed

lemma make_curve_df_columns:
  assumes "length ps = length rs" and "length rs = length ts"
  shows "\<exists>df. make_curve_df name ps rs ts = Inr df
           \<and> map precision df = ps \<and> map recall df = rs \<and> map threshold df = ts
           \<and> length df = length ts"
proof -
  let ?df = "map (\<lambda>(p, r, t).
               \<lparr>group = name, precision = p, recall = r, threshold = t,
                f1 = f1_score p r\<rparr>)
             (zip ps (zip rs ts))"
  have "make_curve_df name ps rs ts = Inr ?df"
    using assms by (simp add: make_curve_df_def)
  moreover have "map precision ?df = map fst (zip ps (zip rs ts))"
    by (simp add: case_prod_unfold comp_def)
  then have "map precision ?df = ps" using assms by simp
  moreover have "map recall ?df = map fst (map snd (zip ps (zip rs ts)))"
    by (simp add: case_prod_unfold comp_def)
  then have "map recall ?df = rs" using assms by simp
  moreover have "map threshold ?df = map snd (map snd (zip ps (zip rs ts)))"
    by (simp add: case_prod_unfold comp_def)
  then have "map threshold ?df = ts" using assms by simp
  moreover have "length ?df = length ts" using assms by simp
  ultimately show ?thesis by blast
qed

text \<open>
  Claim C8, as amended. For a group on which the library returns one more precision and
  one more recall than thresholds, the thresholds being the distinct scores of the
  group, the last precision and the last recall (the point without threshold) are
  dropped before the compaction and the output, and the table of the group is built
  without error, so its precision, recall and threshold columns have one length. With
  \<open>filtered\<close> false that length is the number of distinct scores; with \<open>filtered\<close> true the
  columns are the compaction of the curve, so the length is at most that number, and at
  least 1 for a group with a row.
\<close>

theorem process_group_lengths:
  assumes "prc (map (\<lambda>r. py_eq_bool (gt r) True) rows) (map (\<lambda>r. py_num (val r)) rows) =
             Inr (ps, rs, ts)"
    and "length ps = Suc (length ts)" and "length rs = Suc (length ts)"
    and "length ts = card (set (map (\<lambda>r. py_num (val r)) rows))"
  shows "\<exists>out. process_group fsub prc filtered (name, rows) = Inr out
     \<and> (\<not> filtered \<longrightarrow>
           map precision out = butlast ps \<and> map recall out = butlast rs
         \<and> map threshold out = ts
         \<and> length out = card (set (map (\<lambda>r. py_num (val r)) rows)))
     \<and> (filtered \<longrightarrow>
           filter_pr_curve fsub (butlast ps) (butlast rs) ts (1 / 1000) =
             Inr (map precision out, map recall out, map threshold out)
         \<and> length out \<le> card (set (map (\<lambda>r. py_num (val r)) rows))
         \<and> (rows \<noteq> [] \<longrightarrow> 1 \<le> length out))"
proof (cases filtered)
  case False
  have "length (butlast ps) = length (butlast rs)" "length (butlast rs) = length ts"
    using assms(2,3) by simp_all
  from make_curve_df_columns [OF this, of name] obtain df where
    "make_curve_df name (butlast ps) (butlast rs) ts = Inr df"
    "map precision df = butlast ps" "map recall df = butlast rs" "map threshold df = ts"
    "length df = length ts"
    by blast
  then show ?thesis
    using False assms(1,4) by (auto simp: process_group_def)
next
  case True
  have l: "length (butlast rs) = length (butlast ps)" "length ts = length (butlast ps)"
    using assms(2,3) by simp_all
  from filter_pr_curve_total [OF l, of fsub "1 / 1000"] obtain ks st where
    f: "filter_pr_curve fsub (butlast ps) (butlast rs) ts (1 / 1000) =
          Inr (map (\<lambda>k. butlast ps ! k) ks, map (\<lambda>k. butlast rs ! k) ks, map (\<lambda>k. ts ! k) ks)"
    and inv: "filter_inv fsub (1 / 1000) (butlast ps) (butlast rs) ts (length (butlast ps)) ks st"
    by blast
  have "length (map (\<lambda>k. butlast ps ! k) ks) = length (map (\<lambda>k. butlast rs ! k) ks)"
    "length (map (\<lambda>k. butlast rs ! k) ks) = length (map (\<lambda>k. ts ! k) ks)"
    by simp_all
  from make_curve_df_columns [OF this, of name] obtain df where
    df: "make_curve_df name (map (\<lambda>k. butlast ps ! k) ks) (map (\<lambda>k. butlast rs ! k) ks)
           (map (\<lambda>k. ts ! k) ks) = Inr df"
    "map precision df = map (\<lambda>k. butlast ps ! k) ks"
    "map recall df = map (\<lambda>k. butlast rs ! k) ks"
    "map threshold df = map (\<lambda>k. ts ! k) ks"
    "length df = length (map (\<lambda>k. ts ! k) ks)"
    by blast
  have run: "process_group fsub prc filtered (name, rows) = Inr df"
    using True assms(1) f df(1) by (simp add: process_group_def)
  have n: "length (butlast ps) = card (set (map (\<lambda>r. py_num (val r)) rows))"
    using assms(2,4) by simp
  have c: "length df \<le> card (set (map (\<lambda>r. py_num (val r)) rows))"
    using kept_count [OF inv] df(5) n by simp
  have "1 \<le> length df" if "rows \<noteq> []"
  proof -
    have "set (map (\<lambda>r. py_num (val r)) rows) \<noteq> {}" using that by simp
    then have "0 < card (set (map (\<lambda>r. py_num (val r)) rows))"
      by (simp add: card_gt_0_iff del: set_map)
    then show ?thesis using kept_count [OF inv] df(5) n by simp
  qed
  with run c f df True show ?thesis by auto
qed


lemma three_rows_merged:
  "merge_predictions_and_ground_truth
       [(''s1'', ''A'', 9/10), (''s2'', ''A'', 4/5), (''s3'', ''A'', 7/10)]
       [(''s3'', ''A'', True)] =
     [\<lparr>up_id = ''s1'', label = ''A'', val = FloatV (9/10), gt = BoolV False\<rparr>,
      \<lparr>up_id = ''s2'', label = ''A'', val = FloatV (4/5), gt = BoolV False\<rparr>,
      \<lparr>up_id = ''s3'', label = ''A'', val = FloatV (7/10), gt = BoolV True\<rparr>]"
  by (simp add: merge_predictions_and_ground_truth_def merge_outer_def fillna_False_def
      left_join_rows_def right_only_rows_def joined_key_def pred_key_def truth_key_def
      less_eq_char_def less_char_def)

lemma three_rows_curve:
  "precision_recall_curve [False, False, True] [9/10, 4/5, 7/10] =
     Inr ([1/3, 0, 0, 1], [1, 0, 0, 0], [7/10, 4/5, 9/10])"
  by (simp add: precision_recall_curve_def)

lemma three_rows_filtered:
  "filter_pr_curve exact_sub [1/3, 0, 0] [1, 0, 0] [7/10, 4/5, 9/10] (1/1000) =
     Inr ([1/3, 0], [1, 0], [7/10, 4/5])"
  by (simp add: filter_pr_curve_def filter_step_def keep_point_def exact_sub_def)

text \<open>
  Claim C8 as stated fails with \<open>filtered\<close> true (the default): three rows with three
  distinct scores, the two highest being negatives. The curve has three points after
  the final point is dropped, the second and the third are equal in precision and
  recall, and the compaction removes the third: two output rows for three thresholds.
\<close>

theorem curve_length_counterexample:
  "get_pr_curve_df exact_sub precision_recall_curve
       [(''s1'', ''A'', 9/10), (''s2'', ''A'', 4/5), (''s3'', ''A'', 7/10)]
       [(''s3'', ''A'', True)] None True =
     Inr [\<lparr>group = ''all'', precision = 1/3, recall = 1, threshold = 7/10, f1 = Some (1/2)\<rparr>,
          \<lparr>group = ''all'', precision = 0, recall = 0, threshold = 4/5, f1 = None\<rparr>]
   \<and> card (set (map (\<lambda>r. py_num (val r)) (merge_predictions_and_ground_truth
       [(''s1'', ''A'', 9/10), (''s2'', ''A'', 4/5), (''s3'', ''A'', 7/10)]
       [(''s3'', ''A'', True)]))) = 3"
  by (simp add: get_pr_curve_df_def three_rows_merged to_process_def process_group_def
      three_rows_curve three_rows_filtered make_curve_df_def f1_score_def pd_concat_def)

theorem process_group_lengths_witness:
  "process_group exact_sub precision_recall_curve True (''all'',
       [\<lparr>up_id = ''s1'', label = ''A'', val = FloatV (9/10), gt = BoolV False\<rparr>,
        \<lparr>up_id = ''s2'', label = ''A'', val = FloatV (4/5), gt = BoolV False\<rparr>,
        \<lparr>up_id = ''s3'', label = ''A'', val = FloatV (7/10), gt = BoolV True\<rparr>]) =
     Inr [\<lparr>group = ''all'', precision = 1/3, recall = 1, threshold = 7/10, f1 = Some (1/2)\<rparr>,
          \<lparr>group = ''all'', precision = 0, recall = 0, threshold = 4/5, f1 = None\<rparr>]
   \<and> process_group exact_sub precision_recall_curve False (''all'',
       [\<lparr>up_id = ''s1'', label = ''A'', val = FloatV (9/10), gt = BoolV False\<rparr>,
        \<lparr>up_id = ''s2'', label = ''A'', val = FloatV (4/5), gt = BoolV False\<rparr>,
        \<lparr>up_id = ''s3'', label = ''A'', val = FloatV (7/10), gt = BoolV True\<rparr>]) =
     Inr [\<lparr>group = ''all'', precision = 1/3, recall = 1, threshold = 7/10, f1 = Some (1/2)\<rparr>,
          \<lparr>group = ''all'', precision = 0, recall = 0, threshold = 4/5, f1 = None\<rparr>,
          \<lparr>group = ''all'', precision = 0, recall = 0, threshold = 9/10, f1 = None\<rparr>]"
proof -
  let ?rows = "[\<lparr>up_id = ''s1'', label = ''A'', val = FloatV (9/10), gt = BoolV False\<rparr>,
        \<lparr>up_id = ''s2'', label = ''A'', val = FloatV (4/5), gt = BoolV False\<rparr>,
        \<lparr>up_id = ''s3'', label = ''A'', val = FloatV (7/10), gt = BoolV True\<rparr>]"
  have h1: "precision_recall_curve (map (\<lambda>r. py_eq_bool (gt r) True) ?rows)
      (map (\<lambda>r. py_num (val r)) ?rows) = Inr ([1/3, 0, 0, 1], [1, 0, 0, 0], [7/10, 4/5, 9/10])"
    using three_rows_curve by simp
  have h2: "length [1/3, 0, 0, 1::real] = Suc (length [7/10, 4/5, 9/10::real])" by simp
  have h3: "length [1, 0, 0, 0::real] = Suc (length [7/10, 4/5, 9/10::real])" by simp
  have h4: "length [7/10, 4/5, 9/10::real] = card (set (map (\<lambda>r. py_num (val r)) ?rows))"
    by simp
  note t = process_group_lengths [where prc = precision_recall_curve and rows = ?rows
      and fsub = exact_sub
      and ps = "[1/3, 0, 0, 1]" and rs = "[1, 0, 0, 0]" and ts = "[7/10, 4/5, 9/10]"
      and name = "''all''", OF h1 h2 h3 h4]
  from t [of True] t [of False]
  show ?thesis
    by (simp add: process_group_def three_rows_curve three_rows_filtered make_curve_df_def
        f1_score_def)
qed

lemma process_group_returns:
  assumes "prc (map (\<lambda>r. py_eq_bool (gt r) True) rows) (map (\<lambda>r. py_num (val r)) rows) =
             Inr (ps, rs, ts)"
    and "length ps = Suc (length ts)" and "length rs = Suc (length ts)"
  shows "\<exists>out. process_group fsub prc filtered (name, rows) = Inr out"
proof (cases filtered)
  case False
  have "length (butlast ps) = length (butlast rs)" "length (butlast rs) = length ts"
    using assms(2,3) by simp_all
  from make_curve_df_columns [OF this, of name] obtain df where
    "make_curve_df name (butlast ps) (butlast rs) ts = Inr df"
    by blast
  then show ?thesis
    using False assms(1) by (auto simp: process_group_def)
next
  case True
  have l: "length (butlast rs) = length (butlast ps)" "length ts = length (butlast ps)"
    using assms(2,3) by simp_all
  from filter_pr_curve_total [OF l, of fsub "1 / 1000"] obtain ks where
    f: "filter_pr_curve fsub (butlast ps) (butlast rs) ts (1 / 1000) =
          Inr (map (\<lambda>k. butlast ps ! k) ks, map (\<lambda>k. butlast rs ! k) ks, map (\<lambda>k. ts ! k) ks)"
    by blast
  have "length (map (\<lambda>k. butlast ps ! k) ks) = length (map (\<lambda>k. butlast rs ! k) ks)"
    "length (map (\<lambda>k. butlast rs ! k) ks) = length (map (\<lambda>k. ts ! k) ks)"
    by simp_all
  from make_curve_df_columns [OF this, of name] obtain df where
    "make_curve_df name (map (\<lambda>k. butlast ps ! k) ks) (map (\<lambda>k. butlast rs ! k) ks)
           (map (\<lambda>k. ts ! k) ks) = Inr df"
    by blast
  then show ?thesis
    using True assms(1) f by (simp add: process_group_def)
qed

lemma curve_loop_returns:
  assumes "\<forall>g\<in>set gs. \<exists>out. process_group fsub prc filtered g = Inr out"
  shows "\<exists>dfs. curve_loop fsub prc filtered gs = Inr dfs \<and> length dfs = length gs"
  using assms
proof (induction gs)
  case Nil
  then show ?case by simp
next
  case (Cons g gs)
  then obtain out dfs where "process_group fsub prc filtered g = Inr out"
    and "curve_loop fsub prc filtered gs = Inr dfs" and "length dfs = length gs"
    by auto
  then show ?case by simp
qed

text \<open>
  Claim C9, as amended. With a grouping mapping \<open>m\<close>, an aligned row whose label is no
  key of \<open>m\<close> is in no group; the groups are those of the table without such rows; every
  row of a group has the group's name as the image of its label; what the Curve Builder
  returns, a table or an error, is what it returns when the rows with unmapped labels
  are removed from its inputs; every output row carries a group name from the range of
  \<open>m\<close>. And the Curve Builder returns a table, raising no error, when at least one
  aligned row has a mapped label and the library returns, for every group, a curve with
  one more precision and one more recall than thresholds.
\<close>

theorem unmapped_labels_excluded:
  "(\<forall>g\<in>set (to_process combined (Some m)). \<forall>r\<in>set (snd g).
        r \<in> set combined \<and> m (label r) = Some (fst g))
   \<and> (\<forall>r. m (label r) = None \<longrightarrow>
          (\<forall>g\<in>set (to_process combined (Some m)). r \<notin> set (snd g)))
   \<and> to_process combined (Some m) =
       to_process (filter (\<lambda>r. m (label r) \<noteq> None) combined) (Some m)
   \<and> get_pr_curve_df fsub prc P G (Some m) filtered =
       get_pr_curve_df fsub prc (filter (\<lambda>p. m (fst (snd p)) \<noteq> None) P)
         (filter (\<lambda>t. m (fst (snd t)) \<noteq> None) G) (Some m) filtered
   \<and> (\<forall>out. get_pr_curve_df fsub prc P G (Some m) filtered = Inr out \<longrightarrow>
          (\<forall>c\<in>set out. group c \<in> ran m))
   \<and> ((\<exists>r\<in>set (merge_predictions_and_ground_truth P G). m (label r) \<noteq> None)
        \<and> (\<forall>g\<in>set (to_process (merge_predictions_and_ground_truth P G) (Some m)).
              \<exists>ps rs ts.
                prc (map (\<lambda>r. py_eq_bool (gt r) True) (snd g))
                    (map (\<lambda>r. py_num (val r)) (snd g)) = Inr (ps, rs, ts)
              \<and> length ps = Suc (length ts) \<and> length rs = Suc (length ts))
      \<longrightarrow> (\<exists>out. get_pr_curve_df fsub prc P G (Some m) filtered = Inr out))"
proof -
  have a: "\<forall>g\<in>set (to_process combined (Some m)). \<forall>r\<in>set (snd g).
        r \<in> set combined \<and> m (label r) = Some (fst g)"
    using to_process_rows by fastforce
  then have b: "\<forall>r. m (label r) = None \<longrightarrow>
          (\<forall>g\<in>set (to_process combined (Some m)). r \<notin> set (snd g))"
    by fastforce
  have c: "to_process combined (Some m) =
       to_process (filter (\<lambda>r. m (label r) \<noteq> None) combined) (Some m)"
    by (simp only: to_process_filter)
  have d: "get_pr_curve_df fsub prc P G (Some m) filtered =
       get_pr_curve_df fsub prc (filter (\<lambda>p. m (fst (snd p)) \<noteq> None) P)
         (filter (\<lambda>t. m (fst (snd t)) \<noteq> None) G) (Some m) filtered"
    unfolding get_pr_curve_df_def Let_def
      merge_filter [of "\<lambda>l. m l \<noteq> None" P G] to_process_filter ..
  have e: "group c \<in> ran m"
    if "get_pr_curve_df fsub prc P G (Some m) filtered = Inr out" and "c \<in> set out" for out c
  proof -
    let ?gs = "to_process (merge_predictions_and_ground_truth P G) (Some m)"
    from that(1) obtain dfs where l: "curve_loop fsub prc filtered ?gs = Inr dfs"
      and o: "out = concat dfs"
      by (auto simp: get_pr_curve_df_def Let_def pd_concat_def split: sum.splits if_splits)
    from curve_loop_groups [OF l] that(2) o have "group c \<in> fst ` set ?gs" by simp
    then show ?thesis using to_process_names by fastforce
  qed


  have f: "\<exists>out. get_pr_curve_df fsub prc P G (Some m) filtered = Inr out"
    if mapped: "\<exists>r\<in>set (merge_predictions_and_ground_truth P G). m (label r) \<noteq> None"
    and lib: "\<forall>g\<in>set (to_process (merge_predictions_and_ground_truth P G) (Some m)).
              \<exists>ps rs ts.
                prc (map (\<lambda>r. py_eq_bool (gt r) True) (snd g))
                    (map (\<lambda>r. py_num (val r)) (snd g)) = Inr (ps, rs, ts)
              \<and> length ps = Suc (length ts) \<and> length rs = Suc (length ts)"
  proof -
    let ?gs = "to_process (merge_predictions_and_ground_truth P G) (Some m)"
    have "\<exists>out. process_group fsub prc filtered g = Inr out" if "g \<in> set ?gs" for g
    proof -
      from lib that obtain ps rs ts where
        "prc (map (\<lambda>r. py_eq_bool (gt r) True) (snd g))
             (map (\<lambda>r. py_num (val r)) (snd g)) = Inr (ps, rs, ts)"
        "length ps = Suc (length ts)" "length rs = Suc (length ts)"
        by blast
      from process_group_returns [where prc = prc and rows = "snd g" and fsub = fsub
          and filtered = filtered and name = "fst g", OF this]
      show ?thesis by simp
    qed
    then have "\<forall>g\<in>set ?gs. \<exists>out. process_group fsub prc filtered g = Inr out" by blast
    from curve_loop_returns [OF this] obtain dfs where
      l: "curve_loop fsub prc filtered ?gs = Inr dfs" and n: "length dfs = length ?gs"
      by blast
    from mapped obtain r k where r: "r \<in> set (merge_predictions_and_ground_truth P G)"
      and k: "m (label r) = Some k"
      by auto
    from to_process_member [where m = m and r = r and k = k, OF r k]
    have "?gs \<noteq> []" by auto
    then have "dfs \<noteq> []" using n by auto
    then show ?thesis using l by (simp add: get_pr_curve_df_def pd_concat_def)
  qed
  show ?thesis using a b c d e f by blast
qed

text \<open>
  Claim C9 as stated fails where it says that no error is raised: one aligned row, its
  label \<^verbatim>\<open>X\<close> no key of the mapping. The row is excluded, no group is left, and
  \<^verbatim>\<open>pd.concat\<close> of the empty list of tables raises \<^verbatim>\<open>ValueError\<close>.
\<close>

theorem unmapped_only_counterexample:
  "get_pr_curve_df exact_sub precision_recall_curve [(''s1'', ''X'', 4/5)] []
       (Some [''A'' \<mapsto> ''g1'']) True = Inl ValueError"
  by (simp add: get_pr_curve_df_def merge_predictions_and_ground_truth_def merge_outer_def
      fillna_False_def left_join_rows_def right_only_rows_def pred_key_def truth_key_def
      to_process_def List.map_filter_def pd_concat_def)

theorem unmapped_labels_excluded_witness:
  "get_pr_curve_df exact_sub precision_recall_curve
       [(''s1'', ''A'', 9/10), (''s1'', ''X'', 4/5)] [(''s1'', ''A'', True), (''s2'', ''Y'', True)]
       (Some [''A'' \<mapsto> ''g1'']) True =
     Inr [\<lparr>group = ''g1'', precision = 1, recall = 1, threshold = 9/10, f1 = Some 1\<rparr>]"
  using unmapped_labels_excluded [of "[]" "[''A'' \<mapsto> ''g1'']" exact_sub
      precision_recall_curve
      "[(''s1'', ''A'', 9/10), (''s1'', ''X'', 4/5)]"
      "[(''s1'', ''A'', True), (''s2'', ''Y'', True)]" True]
    curve_example
  by simp

text \<open>
  The curve of the standard definition has the shape the theorems above ask of the
  library, on every group with a row.
\<close>

lemma precision_recall_curve_shape:
  assumes "y_true \<noteq> []" and "length y_true = length probas_pred"
  shows "\<exists>ps rs ts. precision_recall_curve y_true probas_pred = Inr (ps, rs, ts)
           \<and> length ps = Suc (length ts) \<and> length rs = Suc (length ts)
           \<and> length ts = card (set probas_pred)"
  using assms by (simp add: precision_recall_curve_def Let_def length_remdups_card_conv)

end
